theory Spec2Isabelle
  imports Main "HOL-Library.Sublist"
begin

section \<open>Data model (utils/types.ts)\<close>

text \<open>
  The message tree of the web UI: every message is a node with a parent id and an ordered
  list of child ids. JavaScript numbers that serve as ids and timestamps are integral
  (\<^verbatim>\<open>Date.now()\<close>), so they are modelled as \<^typ>\<open>int\<close>; \<^verbatim>\<open>-1\<close> is the
  sentinel the code uses for "no node".
\<close>

datatype msg_type = Text | Root

datatype msg_role = User | Assistant | System

text \<open>The timing fields are only copied by the code, never inspected.\<close>

record TimingReport =
  prompt_n :: int
  prompt_ms :: int
  predicted_n :: int
  predicted_ms :: int

datatype MessageExtra =
  MessageExtraTextFile string string
| MessageExtraContext string

text \<open>
  \<^verbatim>\<open>Message\<close> and \<^verbatim>\<open>PendingMessage = Omit<Message, 'content'> & {content: string | null}\<close>
  differ in the type of \<^verbatim>\<open>content\<close> only, which is the parameter of the record.
  The field \<^verbatim>\<open>id\<close> is named \<open>id_msg\<close>, since \<open>id\<close> is the identity function of HOL.
\<close>

record 'c MessageOf =
  id_msg :: int
  convId :: string
  type :: msg_type
  timestamp :: int
  role :: msg_role
  content :: 'c
  timings :: "TimingReport option"
  extra :: "MessageExtra list option"
  parent :: int
  children :: "int list"

type_synonym Message = "string MessageOf"

type_synonym PendingMessage = "string option MessageOf"

section \<open>Branch display (components/ChatScreen.tsx)\<close>

record MessageDisplay =
  msg :: Message
  siblingLeafNodeIds :: "int list"
  siblingCurrIdx :: int

text \<open>
  \<^verbatim>\<open>const nodeMap = new Map(); for (const msg of msgs) nodeMap.set(msg.id, msg);\<close>
  A later message with the same id replaces an earlier one.
\<close>

definition nodeMap_of :: "Message list \<Rightarrow> (int \<rightharpoonup> Message)" where
  "nodeMap_of msgs = fold (\<lambda>msg m. m(id_msg msg \<mapsto> msg)) msgs Map.empty"

text \<open>\<^verbatim>\<open>xs.at(-1) ?? -1\<close>: the last element, \<^verbatim>\<open>-1\<close> for the empty array.\<close>

definition at_last_or :: "int list \<Rightarrow> int" where
  "at_last_or xs = (case xs of [] \<Rightarrow> - 1 | _ \<Rightarrow> last xs)"

text \<open>
  The \<^verbatim>\<open>while (currNode)\<close> loop of \<^verbatim>\<open>findLeafNode\<close>. The loop has no bound of its
  own: on child links that form a cycle it runs forever, which is the value \<open>None\<close> here.
  The inner option is \<^verbatim>\<open>currNode\<close> itself (\<^verbatim>\<open>undefined\<close> when the map has no entry).
\<close>

partial_function (option) findLeafNode_loop ::
  "(int \<rightharpoonup> Message) \<Rightarrow> Message option \<Rightarrow> Message option option" where
  "findLeafNode_loop nodeMap currNode =
     (case currNode of
        None \<Rightarrow> Some None
      | Some n \<Rightarrow>
          if length (children n) = 0 then Some (Some n)
          else findLeafNode_loop nodeMap (nodeMap (at_last_or (children n))))"

declare findLeafNode_loop.simps [code]

text \<open>\<^verbatim>\<open>return currNode?.id ?? -1\<close>\<close>

definition findLeafNode :: "(int \<rightharpoonup> Message) \<Rightarrow> int \<Rightarrow> int option" where
  "findLeafNode nodeMap msgId =
     map_option (\<lambda>currNode. case currNode of None \<Rightarrow> - 1 | Some n \<Rightarrow> id_msg n)
       (findLeafNode_loop nodeMap (nodeMap msgId))"

text \<open>\<^verbatim>\<open>Array.prototype.indexOf\<close>: the first index holding the value, \<^verbatim>\<open>-1\<close> if none.\<close>

fun indexOf_from :: "int list \<Rightarrow> int \<Rightarrow> int \<Rightarrow> int" where
  "indexOf_from [] x k = - 1"
| "indexOf_from (y # ys) x k = (if y = x then k else indexOf_from ys x (k + 1))"

definition indexOf :: "int list \<Rightarrow> int \<Rightarrow> int" where
  "indexOf xs x = indexOf_from xs x 0"

text \<open>
  \<^verbatim>\<open>siblings.map(findLeafNode)\<close>: the result exists only if every descent ends.
\<close>

definition map_findLeafNode :: "(int \<rightharpoonup> Message) \<Rightarrow> int list \<Rightarrow> int list option" where
  "map_findLeafNode nodeMap siblings = those (map (findLeafNode nodeMap) siblings)"

text \<open>The \<^verbatim>\<open>for (const msg of currNodes)\<close> loop, with \<^verbatim>\<open>res\<close> as accumulator.\<close>

fun display_loop ::
  "(int \<rightharpoonup> Message) \<Rightarrow> Message list \<Rightarrow> MessageDisplay list \<Rightarrow> MessageDisplay list option" where
  "display_loop nodeMap [] res = Some res"
| "display_loop nodeMap (m # rest) res =
     (case nodeMap (parent m) of
        None \<Rightarrow> display_loop nodeMap rest res
      | Some parentNode \<Rightarrow>
          (let siblings = children parentNode in
           if type m \<noteq> Root then
             (case map_findLeafNode nodeMap siblings of
                None \<Rightarrow> None
              | Some leafIds \<Rightarrow>
                  display_loop nodeMap rest
                    (res @ [\<lparr>msg = m, siblingLeafNodeIds = leafIds,
                             siblingCurrIdx = indexOf siblings (id_msg m)\<rparr>]))
           else display_loop nodeMap rest res))"

text \<open>
  \<^verbatim>\<open>getListMessageDisplay(msgs, leafNodeId)\<close>. The path comes from
  \<^verbatim>\<open>StorageUtils.filterByLeafNodeId(msgs, leafNodeId, true)\<close>, whose source
  (utils/storage.ts) is not available; it is the parameter \<open>filterByLeafNodeId\<close>, so
  that what is proved holds for whatever path that function returns.
\<close>

definition getListMessageDisplay ::
  "(Message list \<Rightarrow> int \<Rightarrow> bool \<Rightarrow> Message list) \<Rightarrow> Message list \<Rightarrow> int
     \<Rightarrow> MessageDisplay list option" where
  "getListMessageDisplay filterByLeafNodeId msgs leafNodeId =
     (let currNodes = filterByLeafNodeId msgs leafNodeId True;
          nodeMap = nodeMap_of msgs
      in display_loop nodeMap currNodes [])"

subsection \<open>What the descent is meant to compute\<close>

text \<open>
  Following last-child links from an id: a node without children is the leaf; an id that
  the map does not hold gives \<^verbatim>\<open>-1\<close>.
\<close>

inductive last_child_descent :: "(int \<rightharpoonup> Message) \<Rightarrow> int \<Rightarrow> int \<Rightarrow> bool"
  for nodeMap :: "int \<rightharpoonup> Message" where
  absent: "nodeMap i = None \<Longrightarrow> last_child_descent nodeMap i (- 1)"
| leaf: "nodeMap i = Some n \<Longrightarrow> children n = [] \<Longrightarrow> last_child_descent nodeMap i (id_msg n)"
| step: "nodeMap i = Some n \<Longrightarrow> children n \<noteq> [] \<Longrightarrow>
         last_child_descent nodeMap (last (children n)) l \<Longrightarrow> last_child_descent nodeMap i l"

text \<open>The child links of a node map, as a relation from parent id to child id.\<close>

definition child_links :: "(int \<rightharpoonup> Message) \<Rightarrow> (int \<times> int) set" where
  "child_links nodeMap = {(p, c). \<exists>n. nodeMap p = Some n \<and> c \<in> set (children n)}"


text \<open>
  The position \<^verbatim>\<open>indexOf\<close> is meant to find: the first index that holds the value
  when the list holds it, \<^verbatim>\<open>-1\<close> when it does not.
\<close>

definition first_position :: "int list \<Rightarrow> int \<Rightarrow> int \<Rightarrow> bool" where
  "first_position xs x idx =
     (if x \<in> set xs
      then 0 \<le> idx \<and> nat idx < length xs \<and> xs ! nat idx = x \<and> (\<forall>j < nat idx. xs ! j \<noteq> x)
      else idx = - 1)"

text \<open>A path node gets a display entry iff its parent is in the map and it is no root.\<close>

definition shown :: "(int \<rightharpoonup> Message) \<Rightarrow> Message \<Rightarrow> bool" where
  "shown nodeMap m = (nodeMap (parent m) \<noteq> None \<and> type m \<noteq> Root)"

definition entry_for :: "(int \<rightharpoonup> Message) \<Rightarrow> Message \<Rightarrow> MessageDisplay \<Rightarrow> bool" where
  "entry_for nodeMap m e =
     (msg e = m \<and>
      (\<exists>p. nodeMap (parent m) = Some p \<and>
           list_all2 (last_child_descent nodeMap) (children p) (siblingLeafNodeIds e) \<and>
           first_position (children p) (id_msg m) (siblingCurrIdx e)))"

definition leaf_id :: "Message option \<Rightarrow> int" where
  "leaf_id r = (case r of None \<Rightarrow> - 1 | Some n \<Rightarrow> id_msg n)"

section \<open>Message tree store (StorageUtils)\<close>

text \<open>
  \<^verbatim>\<open>StorageUtils\<close> (utils/storage.ts) is used by the controller, but its source is not
  available. The store follows section 4.1 of the specification: conversations and message
  nodes, both kept in creation order.
\<close>

record Conversation =
  id_conv :: string
  lastModified :: int
  currNode :: int
  name :: string

record Storage =
  conversations :: "Conversation list"
  messages :: "Message list"

text \<open>A thrown JavaScript error: its \<^verbatim>\<open>name\<close> and its \<^verbatim>\<open>message\<close>.\<close>

datatype exn = Exn (exn_name: string) (exn_message: string)

definition NotFoundError :: "string \<Rightarrow> exn" where
  "NotFoundError what = Exn ''NotFoundError'' what"

text \<open>
  Modelled from the spec: \<^verbatim>\<open>StorageUtils.getOneConversation\<close>, following
  \<^verbatim>\<open>getConversation(convId) -> Conversation | absent\<close>.
\<close>

definition getOneConversation :: "Storage \<Rightarrow> string \<Rightarrow> Conversation option" where
  "getOneConversation s c = find (\<lambda>conv. id_conv conv = c) (conversations s)"

text \<open>
  Modelled from the spec: \<^verbatim>\<open>StorageUtils.getMessages\<close>, following
  \<^verbatim>\<open>getMessages(convId)\<close>, the ordered sequence of all nodes of the conversation (all
  branches, unfiltered).
\<close>

definition getMessages :: "Storage \<Rightarrow> string \<Rightarrow> Message list" where
  "getMessages s c = filter (\<lambda>m. convId m = c) (messages s)"

text \<open>Decimal digits of a timestamp, for the conversation id \<^verbatim>\<open>conv-<timestamp>\<close>.\<close>

definition digit_char :: "nat \<Rightarrow> char" where
  "digit_char d = char_of (48 + d)"

function show_nat :: "nat \<Rightarrow> string" where
  "show_nat n = (if n < 10 then [digit_char n] else show_nat (n div 10) @ [digit_char (n mod 10)])"
  by pat_completeness auto
termination
  by (relation "measure (\<lambda>n. n)") auto

definition show_int :: "int \<Rightarrow> string" where
  "show_int i = (if i < 0 then CHR ''-'' # show_nat (nat (- i)) else show_nat (nat i))"

text \<open>
  Modelled from the spec: \<^verbatim>\<open>StorageUtils.createConversation\<close>.
  \<^verbatim>\<open>createConversation(seedTitle) -> Conversation\<close> creates a conversation with a synthesized root node, \<^verbatim>\<open>currNode\<close> being the root id. The id has
  the format \<^verbatim>\<open>conv-<timestamp>\<close>; the root has the sentinel parent and, ids being
  derived from creation time, the clock reading \<open>now\<close> as its id. The specification does
  not fix the role and content of the root; they are \<^verbatim>\<open>system\<close> and empty here.
\<close>

definition createConversation :: "Storage \<Rightarrow> string \<Rightarrow> int \<Rightarrow> Conversation \<times> Storage" where
  "createConversation s seedTitle now =
     (let conv = \<lparr>id_conv = ''conv-'' @ show_int now, lastModified = now,
                  currNode = now, name = seedTitle\<rparr>;
          rootNode = \<lparr>id_msg = now, convId = id_conv conv, type = Root, timestamp = now,
                      role = System, content = [], timings = None, extra = None,
                      parent = - 1, children = []\<rparr>
      in (conv, s\<lparr>conversations := conversations s @ [conv],
                  messages := messages s @ [rootNode]\<rparr>))"

text \<open>
  Modelled from the spec: \<^verbatim>\<open>StorageUtils.appendMsg\<close>.
  \<^verbatim>\<open>appendMessage(node, parentId)\<close> validates that
  \<^verbatim>\<open>parentId\<close> exists in the conversation, sets \<^verbatim>\<open>node.parent = parentId\<close>, appends
  \<^verbatim>\<open>node.id\<close> to the parent's \<^verbatim>\<open>children\<close>, registers the new node and updates the
  conversation's \<^verbatim>\<open>currNode\<close> and \<^verbatim>\<open>lastModified\<close>; it fails with
  \<^verbatim>\<open>NotFoundError\<close> if the conversation or the parent does not exist, and then changes
  nothing. The specification does not say which time \<^verbatim>\<open>lastModified\<close> receives; it is
  the node's timestamp here.
\<close>

definition appendMsg :: "Storage \<Rightarrow> Message \<Rightarrow> int \<Rightarrow> exn + Storage" where
  "appendMsg s m parentNodeId =
     (case getOneConversation s (convId m) of
        None \<Rightarrow> Inl (NotFoundError ''conversation'')
      | Some conv \<Rightarrow>
          if \<not> list_ex (\<lambda>p. convId p = convId m \<and> id_msg p = parentNodeId) (messages s)
          then Inl (NotFoundError ''parent'')
          else Inr (s\<lparr>conversations :=
                        map (\<lambda>c. if id_conv c = convId m
                                  then c\<lparr>currNode := id_msg m, lastModified := timestamp m\<rparr>
                                  else c) (conversations s),
                      messages :=
                        map (\<lambda>p. if convId p = convId m \<and> id_msg p = parentNodeId
                                  then p\<lparr>children := children p @ [id_msg m]\<rparr>
                                  else p) (messages s)
                        @ [m\<lparr>parent := parentNodeId\<rparr>]\<rparr>))"

section \<open>Generation controller (utils/app.context.tsx)\<close>

subsection \<open>State and environment\<close>

text \<open>
  The React state of \<^verbatim>\<open>AppContextProvider\<close> that the controller reads and writes,
  together with the store and the effects a caller can observe: the texts passed to
  \<^verbatim>\<open>alert\<close>, the arguments of the \<^verbatim>\<open>onChunk\<close> callback (\<open>None\<close> for a call without
  argument) and the targets of \<^verbatim>\<open>navigate\<close>. An \<^verbatim>\<open>AbortController\<close> is its
  \<^verbatim>\<open>signal.aborted\<close> flag. State updates take effect at once.
\<close>

record AppState =
  pendingMessages :: "string \<rightharpoonup> PendingMessage"
  aborts :: "string \<rightharpoonup> bool"
  storage :: Storage
  alerts :: "string list"
  onChunkCalls :: "int option list"
  navigations :: "string list"

text \<open>
  One element of the server's event stream, as far as the loop reads it:
  \<^verbatim>\<open>chunk.error\<close> (with its optional message), \<^verbatim>\<open>delta.content\<close> of every element
  of \<^verbatim>\<open>chunk.choices\<close>, and \<^verbatim>\<open>chunk.timings\<close>.
\<close>

record Chunk =
  chunk_error :: "string option option"
  choices :: "string option list"
  chunk_timings :: "TimingReport option"

text \<open>
  What one pull of \<^verbatim>\<open>for await (const chunk of chunks)\<close> meets: the next chunk, a
  rejection, or the user calling \<^verbatim>\<open>stopGenerating\<close> for this conversation while the
  loop waits. The end of the list is the end of the stream.
\<close>

datatype pull = Yield Chunk | Throws exn | UserStop

text \<open>
  What the request of lines 180 to 235 meets: an exception before the response is there
  (\<^verbatim>\<open>JSON.parse\<close> of the custom parameters, a network failure, an unreadable error
  body), the user calling \<^verbatim>\<open>stopGenerating\<close> while \<^verbatim>\<open>fetch\<close> is awaited, or a
  response with its status, the message of its error body and its stream.
\<close>

datatype fetch_reply =
  RequestThrows exn
| RequestStopped fetch_reply
| Response int "string option" "pull list"

record GenEnv =
  genNow :: int
  showTokensPerSecond :: bool
  reply :: fetch_reply

datatype rag_reply = RagFails | RagDocuments "string list list"

record SendEnv =
  rag :: rag_reply
  convNow :: int
  userNow :: int
  gen :: GenEnv

definition AbortError :: exn where
  "AbortError = Exn ''AbortError'' ''The user aborted a request.''"

subsection \<open>Setters and queries\<close>

definition setPending :: "AppState \<Rightarrow> string \<Rightarrow> PendingMessage option \<Rightarrow> AppState" where
  "setPending st c pendingMsg =
     (case pendingMsg of
        None \<Rightarrow> st\<lparr>pendingMessages := (pendingMessages st)(c := None)\<rparr>
      | Some p \<Rightarrow> st\<lparr>pendingMessages := (pendingMessages st)(c \<mapsto> p)\<rparr>)"

definition setAbort :: "AppState \<Rightarrow> string \<Rightarrow> bool option \<Rightarrow> AppState" where
  "setAbort st c controller =
     (case controller of
        None \<Rightarrow> st\<lparr>aborts := (aborts st)(c := None)\<rparr>
      | Some a \<Rightarrow> st\<lparr>aborts := (aborts st)(c \<mapsto> a)\<rparr>)"

definition isGenerating :: "AppState \<Rightarrow> string \<Rightarrow> bool" where
  "isGenerating st c = (pendingMessages st c \<noteq> None)"

definition onChunk :: "AppState \<Rightarrow> int option \<Rightarrow> AppState" where
  "onChunk st currLeafNodeId = st\<lparr>onChunkCalls := onChunkCalls st @ [currLeafNodeId]\<rparr>"

definition alert :: "AppState \<Rightarrow> string \<Rightarrow> AppState" where
  "alert st text = st\<lparr>alerts := alerts st @ [text]\<rparr>"

definition navigate :: "AppState \<Rightarrow> string \<Rightarrow> AppState" where
  "navigate st target = st\<lparr>navigations := navigations st @ [target]\<rparr>"

text \<open>
  \<^verbatim>\<open>stopGenerating\<close>: clear the pending entry, then \<^verbatim>\<open>aborts[convId]?.abort()\<close>.
\<close>

definition stopGenerating :: "AppState \<Rightarrow> string \<Rightarrow> AppState" where
  "stopGenerating st c =
     (let st1 = setPending st c None
      in case aborts st1 c of
           None \<Rightarrow> st1
         | Some _ \<Rightarrow> st1\<lparr>aborts := (aborts st1)(c \<mapsto> True)\<rparr>)"

subsection \<open>generateMessage\<close>

text \<open>\<^verbatim>\<open>pendingMsg as Message\<close>, where the content is known not to be null.\<close>

definition asMessage :: "PendingMessage \<Rightarrow> string \<Rightarrow> Message" where
  "asMessage p c =
     \<lparr>id_msg = id_msg p, convId = convId p, type = type p, timestamp = timestamp p,
      role = role p, content = c, timings = timings p, extra = extra p,
      parent = parent p, children = children p\<rparr>"

text \<open>\<^verbatim>\<open>x || 'Unknown error'\<close> for an optional string.\<close>

definition or_unknown :: "string option \<Rightarrow> string" where
  "or_unknown x = (case x of None \<Rightarrow> ''Unknown error'' | Some t \<Rightarrow> if t = [] then ''Unknown error'' else t)"

text \<open>
  The body of the loop up to the new value of \<^verbatim>\<open>pendingMsg\<close> (lines 238 to 258).
  Reading \<^verbatim>\<open>chunk.choices[0].delta\<close> of a chunk without choices is a TypeError.
\<close>

definition applyChunk :: "bool \<Rightarrow> Chunk \<Rightarrow> PendingMessage \<Rightarrow> exn + PendingMessage" where
  "applyChunk showTokens chunk pendingMsg =
     (case chunk_error chunk of
        Some e \<Rightarrow> Inl (Exn ''Error'' (or_unknown e))
      | None \<Rightarrow>
          (case choices chunk of
             [] \<Rightarrow> Inl (Exn ''TypeError'' ''Cannot read properties of undefined'')
           | addedContent # _ \<Rightarrow>
               (let lastContent = (case content pendingMsg of None \<Rightarrow> [] | Some c \<Rightarrow> c);
                    pendingMsg1 =
                      (case addedContent of
                         None \<Rightarrow> pendingMsg
                       | Some a \<Rightarrow>
                           if a = [] then pendingMsg
                           else pendingMsg\<lparr>content := Some (lastContent @ a)\<rparr>);
                    pendingMsg2 =
                      (case chunk_timings chunk of
                         None \<Rightarrow> pendingMsg1
                       | Some t \<Rightarrow>
                           if showTokens
                           then pendingMsg1\<lparr>timings :=
                                  Some \<lparr>prompt_n = prompt_n t, prompt_ms = prompt_ms t,
                                        predicted_n = predicted_n t,
                                        predicted_ms = predicted_ms t\<rparr>\<rparr>
                           else pendingMsg1)
                in Inr pendingMsg2)))"

text \<open>
  The loop \<^verbatim>\<open>for await (const chunk of chunks)\<close>. The result is the error the loop
  threw, if any, the local \<^verbatim>\<open>pendingMsg\<close> at that point, and the state. A stop by the
  user clears the pending entry and aborts the registered controller; the pull that is
  waiting on the aborted signal then rejects with an \<^verbatim>\<open>AbortError\<close>.
\<close>

fun consume :: "bool \<Rightarrow> string \<Rightarrow> pull list \<Rightarrow> PendingMessage \<Rightarrow> AppState
                 \<Rightarrow> exn option \<times> PendingMessage \<times> AppState" where
  "consume showTokens c [] pendingMsg st = (None, pendingMsg, st)"
| "consume showTokens c (Throws e # rest) pendingMsg st = (Some e, pendingMsg, st)"
| "consume showTokens c (UserStop # rest) pendingMsg st =
     (let st1 = stopGenerating st c
      in if aborts st1 c = Some True then (Some AbortError, pendingMsg, st1)
         else consume showTokens c rest pendingMsg st1)"
| "consume showTokens c (Yield chunk # rest) pendingMsg st =
     (case applyChunk showTokens chunk pendingMsg of
        Inl e \<Rightarrow> (Some e, pendingMsg, st)
      | Inr pendingMsg1 \<Rightarrow>
          consume showTokens c rest pendingMsg1
            (onChunk (setPending st c (Some pendingMsg1)) None))"

text \<open>The \<^verbatim>\<open>try\<close> block: the request, the status check and the loop.\<close>

fun runRequest :: "bool \<Rightarrow> string \<Rightarrow> fetch_reply \<Rightarrow> PendingMessage \<Rightarrow> AppState
                    \<Rightarrow> exn option \<times> PendingMessage \<times> AppState" where
  "runRequest showTokens c (RequestThrows e) pendingMsg st = (Some e, pendingMsg, st)"
| "runRequest showTokens c (RequestStopped r) pendingMsg st =
     (let st1 = stopGenerating st c
      in if aborts st1 c = Some True then (Some AbortError, pendingMsg, st1)
         else runRequest showTokens c r pendingMsg st1)"
| "runRequest showTokens c (Response status body chunks) pendingMsg st =
     (if status \<noteq> 200 then (Some (Exn ''Error'' (or_unknown body)), pendingMsg, st)
      else consume showTokens c chunks pendingMsg st)"

text \<open>
  Lines 275 to 279: persist the pending message if it has content, clear the pending
  entry, report the new node. A failing \<^verbatim>\<open>appendMsg\<close> is awaited outside the
  \<^verbatim>\<open>try\<close> block, so it ends \<^verbatim>\<open>generateMessage\<close> with that error.
\<close>

definition persistPending :: "AppState \<Rightarrow> string \<Rightarrow> int \<Rightarrow> PendingMessage \<Rightarrow> int
                                \<Rightarrow> (exn + unit) \<times> AppState" where
  "persistPending st c leafNodeId pendingMsg pendingId =
     (case content pendingMsg of
        None \<Rightarrow> (Inr (), onChunk (setPending st c None) (Some pendingId))
      | Some txt \<Rightarrow>
          (case appendMsg (storage st) (asMessage pendingMsg txt) leafNodeId of
             Inl e \<Rightarrow> (Inl e, st)
           | Inr s \<Rightarrow>
               (Inr (), onChunk (setPending (st\<lparr>storage := s\<rparr>) c None) (Some pendingId))))"

text \<open>The object literal of lines 166 to 175.\<close>

definition newPendingMsg :: "int \<Rightarrow> string \<Rightarrow> int \<Rightarrow> PendingMessage" where
  "newPendingMsg pendingId c leafNodeId =
     \<lparr>id_msg = pendingId, convId = c, type = Text, timestamp = pendingId,
      role = Assistant, content = None, timings = None, extra = None,
      parent = leafNodeId, children = []\<rparr>"

text \<open>
  \<^verbatim>\<open>generateMessage(convId, leafNodeId, onChunk)\<close>. The list \<^verbatim>\<open>currMessages\<close> and
  the request parameters go to the server only, whose answer is \<open>reply env\<close>;
  \<^verbatim>\<open>filterByLeafNodeId\<close> returns an array, so the check \<^verbatim>\<open>!currMessages\<close> never
  throws. The result is \<open>Inl\<close> of the error when the promise rejects.
\<close>

definition generateMessage :: "AppState \<Rightarrow> string \<Rightarrow> int \<Rightarrow> GenEnv \<Rightarrow> (exn + unit) \<times> AppState" where
  "generateMessage st c leafNodeId env =
     (if isGenerating st c then (Inr (), st)
      else
        case getOneConversation (storage st) c of
          None \<Rightarrow> (Inl (Exn ''Error'' ''Current conversation is not found''), st)
        | Some currConversation \<Rightarrow>
            (let st1 = setAbort st c (Some False);
                 pendingId = genNow env + 1;
                 pendingMsg0 = newPendingMsg pendingId c leafNodeId;
                 st2 = setPending st1 c (Some pendingMsg0)
             in case runRequest (showTokensPerSecond env) c (reply env) pendingMsg0 st2 of
                  (Some err, pendingMsg, st3) \<Rightarrow>
                    (let st4 = setPending st3 c None
                     in if exn_name err = ''AbortError''
                        then persistPending st4 c leafNodeId pendingMsg pendingId
                        else (Inl err, alert st4 (exn_message err)))
                | (None, pendingMsg, st3) \<Rightarrow>
                    persistPending st3 c leafNodeId pendingMsg pendingId))"

subsection \<open>Content rewriting\<close>

definition directive_codebase :: string where
  "directive_codebase =
     ''You are a helpful assistant. The context provided below is automatically fetched''
     @ '' and may include technical details such as repository names, file names, compone''
     @ ''nt names, class names, and function names. Before answering the user''
     @ [CHR 0x27]
     @ ''s query, carefully review all the provided context and integrate it if it is rel''
     @ ''evant. If any part of the context is ambiguous or unrelated to the query, ignore''
     @ '' it. When referencing code, be as specific as possible by including repository n''
     @ ''ames, file names, components, class names, and functions where applicable. Base ''
     @ ''your answer primarily on the valid context, and if the context is incomplete, no''
     @ ''te the ambiguity and only supplement with general knowledge as necessary. Priori''
     @ ''tize clarity and precision in your response.''"

definition directive_products :: string where
  "directive_products =
     ''You are a helpful assistant tasked with selecting items based on the users input''
     @ ''. The system has provided a list of 20 items. Your job is to evaluate these item''
     @ ''s and choose the top 5 that best match the users query. Use the users input to g''
     @ ''uide your selection, prioritizing relevance and accuracy.''"

definition directive_documentation :: string where
  "directive_documentation =
     ''You are a helpful assistant. The system has provided a list documentation snippe''
     @ ''ts. Your job is to evaluate these snippets and use any that are relevant. If a s''
     @ ''nippet is not relevant to the users query, then ignore it. If a snippet is used ''
     @ ''then site any particluar metadata about it such as file name, table name, column''
     @ '' name.''"

definition directive_medical_records :: string where
  "directive_medical_records =
     ''You are a medical assistant. Evaluate provided medical record snippets and use o''
     @ ''nly relevant ones. Reformat any dates as needed. Cite metadata (file name, topic''
     @ '', caseId, type) for used snippets. Do not cite the actual snippet name, just fil''
     @ ''e name. Ignore irrelevant snippets.''"

text \<open>
  \<^verbatim>\<open>String.prototype.replace\<close> with a string pattern: the first occurrence is
  replaced, and in the replacement \<^verbatim>\<open>$$\<close>, \<^verbatim>\<open>$&\<close>, \<^verbatim>\<open>$`\<close> and \<^verbatim>\<open>$'\<close> stand
  for a dollar sign, the match, the text before it and the text after it.
\<close>

fun getSubstitution :: "string \<Rightarrow> string \<Rightarrow> string \<Rightarrow> string \<Rightarrow> string" where
  "getSubstitution matched pre post [] = []"
| "getSubstitution matched pre post [c] = [c]"
| "getSubstitution matched pre post (c # d # rest) =
     (if c = CHR ''$'' \<and> d = CHR ''$'' then CHR ''$'' # getSubstitution matched pre post rest
      else if c = CHR ''$'' \<and> d = CHR ''&'' then matched @ getSubstitution matched pre post rest
      else if c = CHR ''$'' \<and> d = CHR 0x60 then pre @ getSubstitution matched pre post rest
      else if c = CHR ''$'' \<and> d = CHR 0x27 then post @ getSubstitution matched pre post rest
      else c # getSubstitution matched pre post (d # rest))"

fun replace_from :: "string \<Rightarrow> string \<Rightarrow> string \<Rightarrow> string \<Rightarrow> string" where
  "replace_from pat repl pre [] =
     (if pat = [] then pre @ getSubstitution pat pre [] repl else pre)"
| "replace_from pat repl pre (c # cs) =
     (if prefix pat (c # cs)
      then pre @ getSubstitution pat pre (drop (length pat) (c # cs)) repl
             @ drop (length pat) (c # cs)
      else replace_from pat repl (pre @ [c]) cs)"

definition replace :: "string \<Rightarrow> string \<Rightarrow> string \<Rightarrow> string" where
  "replace s pat repl = replace_from pat repl [] s"

text \<open>\<^verbatim>\<open>ragData.results.documents.flat().join(' ')\<close>\<close>

fun join_space :: "string list \<Rightarrow> string" where
  "join_space [] = []"
| "join_space [x] = x"
| "join_space (x # y # ys) = x @ '' '' @ join_space (y # ys)"

definition allDocsString :: "string list list \<Rightarrow> string" where
  "allDocsString documents = join_space (concat documents)"

definition newlines :: string where
  "newlines = [CHR 0x0A, CHR 0x0A]"

definition rag_failure_alert :: string where
  "rag_failure_alert = ''Failed to fetch context from RAG system.''"

text \<open>
  The four collaborators. \<open>RagFails\<close> is any exception inside their \<^verbatim>\<open>try\<close> block
  (the request failing, a response that is not ok, a body of another shape); the
  \<^verbatim>\<open>catch\<close> block alerts and returns \<^verbatim>\<open>false\<close>, which is \<open>None\<close> here.
\<close>

definition fetchRAGCodebase :: "rag_reply \<Rightarrow> AppState \<Rightarrow> string \<Rightarrow> string option \<times> AppState" where
  "fetchRAGCodebase r st content_in =
     (case r of
        RagFails \<Rightarrow> (None, alert st rag_failure_alert)
      | RagDocuments documents \<Rightarrow>
          (Some (replace content_in ''/codebase''
                   (directive_codebase @ newlines @ allDocsString documents @ newlines @ content_in)),
           st))"

definition fetchRAGProducts :: "rag_reply \<Rightarrow> AppState \<Rightarrow> string \<Rightarrow> string option \<times> AppState" where
  "fetchRAGProducts r st content_in =
     (case r of
        RagFails \<Rightarrow> (None, alert st rag_failure_alert)
      | RagDocuments documents \<Rightarrow>
          (Some (replace content_in ''/products''
                   (directive_products @ newlines @ allDocsString documents @ newlines @ content_in)),
           st))"

definition fetchRAGDocumentation :: "rag_reply \<Rightarrow> AppState \<Rightarrow> string \<Rightarrow> string option \<times> AppState" where
  "fetchRAGDocumentation r st content_in =
     (case r of
        RagFails \<Rightarrow> (None, alert st rag_failure_alert)
      | RagDocuments documents \<Rightarrow>
          (Some (replace content_in ''/documentation''
                   (directive_documentation @ newlines @ allDocsString documents @ newlines
                      @ content_in)),
           st))"

definition fetchRAGMedRecords :: "rag_reply \<Rightarrow> AppState \<Rightarrow> string \<Rightarrow> string option \<times> AppState" where
  "fetchRAGMedRecords r st content_in =
     (case r of
        RagFails \<Rightarrow> (None, alert st rag_failure_alert)
      | RagDocuments documents \<Rightarrow>
          (Some (directive_medical_records @ newlines @ allDocsString documents @ newlines
                   @ content_in),
           st))"

text \<open>
  Lines 294 to 318 of \<^verbatim>\<open>sendMessage\<close>: the first matching prefix decides the
  collaborator; \<^verbatim>\<open>if (newContent !== false) content = newContent\<close>.
\<close>

definition keep_or :: "string \<Rightarrow> string option \<times> AppState \<Rightarrow> string \<times> AppState" where
  "keep_or content_in r = (case r of (None, st) \<Rightarrow> (content_in, st) | (Some newContent, st) \<Rightarrow> (newContent, st))"

definition interceptCommand :: "rag_reply \<Rightarrow> AppState \<Rightarrow> string \<Rightarrow> string \<times> AppState" where
  "interceptCommand r st content_in =
     (if prefix ''/codebase'' content_in then keep_or content_in (fetchRAGCodebase r st content_in)
      else if prefix ''/products'' content_in then keep_or content_in (fetchRAGProducts r st content_in)
      else if prefix ''/documentation'' content_in
        then keep_or content_in (fetchRAGDocumentation r st content_in)
      else if prefix ''/medical_records'' content_in
        then keep_or content_in (fetchRAGMedRecords r st content_in)
      else (content_in, st))"

definition registered_prefixes :: "string list" where
  "registered_prefixes = [''/codebase'', ''/products'', ''/documentation'', ''/medical_records'']"

subsection \<open>sendMessage and replaceMessageAndGenerate\<close>

text \<open>
  \<^verbatim>\<open>String.prototype.trim\<close> on strings of code units below 256: tab, line feed,
  vertical tab, form feed, carriage return, space and no-break space are white space.
\<close>

definition is_space :: "char \<Rightarrow> bool" where
  "is_space ch = (ch \<in> set [CHR 0x09, CHR 0x0A, CHR 0x0B, CHR 0x0C, CHR 0x0D, CHR 0x20, CHR 0xA0])"

definition trim :: "string \<Rightarrow> string" where
  "trim s = rev (dropWhile is_space (rev (dropWhile is_space s)))"

text \<open>The user node that \<^verbatim>\<open>sendMessage\<close> and \<^verbatim>\<open>replaceMessageAndGenerate\<close> build.\<close>

definition userNode :: "int \<Rightarrow> string \<Rightarrow> string \<Rightarrow> MessageExtra list option \<Rightarrow> int \<Rightarrow> Message" where
  "userNode now c content_in extra_in parentId =
     \<lparr>id_msg = now, convId = c, type = Text, timestamp = now, role = User,
      content = content_in, timings = None, extra = extra_in, parent = parentId,
      children = []\<rparr>"

text \<open>
  \<^verbatim>\<open>StorageUtils.appendMsg(...)\<close> without \<^verbatim>\<open>await\<close>: a rejection is not observed by
  the caller, and the store is then unchanged.
\<close>

definition appendMsg_unawaited :: "AppState \<Rightarrow> Message \<Rightarrow> int \<Rightarrow> AppState" where
  "appendMsg_unawaited st m parentNodeId =
     (case appendMsg (storage st) m parentNodeId of
        Inl e \<Rightarrow> st
      | Inr s \<Rightarrow> st\<lparr>storage := s\<rparr>)"

text \<open>Lines 320 to 328: a new conversation when the id or the leaf is absent.\<close>

definition startConversation :: "AppState \<Rightarrow> string \<Rightarrow> int \<Rightarrow> string \<times> int \<times> AppState" where
  "startConversation st content_in now =
     (case createConversation (storage st) (take 256 content_in) now of
        (conv, s) \<Rightarrow>
          (id_conv conv, currNode conv, navigate (st\<lparr>storage := s\<rparr>) (''/chat/'' @ id_conv conv)))"

definition resolveConversation ::
  "AppState \<Rightarrow> string option \<Rightarrow> int option \<Rightarrow> string \<Rightarrow> int \<Rightarrow> string \<times> int \<times> AppState" where
  "resolveConversation st convId_in leafNodeId content_in now =
     (case convId_in of
        None \<Rightarrow> startConversation st content_in now
      | Some c \<Rightarrow>
          if length c = 0 then startConversation st content_in now
          else (case leafNodeId of
                  None \<Rightarrow> startConversation st content_in now
                | Some l \<Rightarrow> (c, l, st)))"

text \<open>Lines 320 to 354: create, append, report, generate.\<close>

definition createAppendGenerate ::
  "AppState \<Rightarrow> string option \<Rightarrow> int option \<Rightarrow> string \<Rightarrow> MessageExtra list option \<Rightarrow> SendEnv
     \<Rightarrow> bool \<times> AppState" where
  "createAppendGenerate st convId_in leafNodeId content_in extra_in env =
     (case resolveConversation st convId_in leafNodeId content_in (convNow env) of
        (c, l, st1) \<Rightarrow>
          (let now = userNow env;
               currMsgId = now;
               st2 = appendMsg_unawaited st1 (userNode now c content_in extra_in l) l;
               st3 = onChunk st2 (Some currMsgId)
           in case generateMessage st3 c currMsgId (gen env) of
                (Inr _, st4) \<Rightarrow> (True, st4)
              | (Inl _, st4) \<Rightarrow> (False, st4)))"

definition sendMessage ::
  "AppState \<Rightarrow> string option \<Rightarrow> int option \<Rightarrow> string \<Rightarrow> MessageExtra list option \<Rightarrow> SendEnv
     \<Rightarrow> bool \<times> AppState" where
  "sendMessage st convId_in leafNodeId content_in extra_in env =
     (if isGenerating st (case convId_in of None \<Rightarrow> [] | Some c \<Rightarrow> c)
         \<or> length (trim content_in) = 0
      then (False, st)
      else
        case interceptCommand (rag env) st content_in of
          (content1, st1) \<Rightarrow> createAppendGenerate st1 convId_in leafNodeId content1 extra_in env)"


subsection \<open>What the stream is meant to deliver\<close>

text \<open>
  The text of one chunk, empty when the chunk has none, and the left-to-right
  concatenation over a stream.
\<close>

definition delta_content :: "Chunk \<Rightarrow> string" where
  "delta_content chunk = (case choices chunk of Some a # _ \<Rightarrow> a | _ \<Rightarrow> [])"

definition stream_text :: "Chunk list \<Rightarrow> string" where
  "stream_text chunks = concat (map delta_content chunks)"

text \<open>A chunk the loop accepts: no error field, and a first choice to read.\<close>

definition well_formed :: "Chunk \<Rightarrow> bool" where
  "well_formed chunk = (chunk_error chunk = None \<and> choices chunk \<noteq> [])"


text \<open>
  The content of the pending message after more text has arrived: a chunk without text
  leaves it as it is, also when it is still null.
\<close>

definition acc_content :: "string option \<Rightarrow> string \<Rightarrow> string option" where
  "acc_content c t = (if t = [] then c else Some ((case c of None \<Rightarrow> [] | Some x \<Rightarrow> x) @ t))"

text \<open>The assistant node that a generation persists, given its text and timings.\<close>

definition assistantNode :: "int \<Rightarrow> string \<Rightarrow> int \<Rightarrow> string \<Rightarrow> TimingReport option \<Rightarrow> Message" where
  "assistantNode pendingId c leafNodeId txt tm =
     asMessage ((newPendingMsg pendingId c leafNodeId)\<lparr>timings := tm\<rparr>) txt"

text \<open>The store after an attempt to persist a node: unchanged when the append fails.\<close>

definition storage_after_append :: "Storage \<Rightarrow> Message \<Rightarrow> int \<Rightarrow> Storage" where
  "storage_after_append s m parentNodeId =
     (case appendMsg s m parentNodeId of Inl e \<Rightarrow> s | Inr s1 \<Rightarrow> s1)"


text \<open>A node with this id is stored in this conversation.\<close>

definition has_node :: "Storage \<Rightarrow> string \<Rightarrow> int \<Rightarrow> bool" where
  "has_node s c i = list_ex (\<lambda>p. convId p = c \<and> id_msg p = i) (messages s)"

text \<open>The directive that belongs to a command prefix.\<close>

definition directive_of :: "string \<Rightarrow> string" where
  "directive_of p =
     (if p = ''/codebase'' then directive_codebase
      else if p = ''/products'' then directive_products
      else if p = ''/documentation'' then directive_documentation
      else directive_medical_records)"

section \<open>Path of a leaf (StorageUtils.filterByLeafNodeId)\<close>

text \<open>
  Modelled from the spec: \<^verbatim>\<open>StorageUtils.filterByLeafNodeId\<close>, steps 1 and 2 of the
  branch resolver. A sentinel leaf id \<^verbatim>\<open>-1\<close> is resolved from the root by following the
  last child at each fork; the walk then goes from the leaf up the parent links and is
  reversed. A leaf id that names no node gives the empty sequence. The third argument is
  taken to say whether root nodes stay in the path. Both walks are bounded by the number of
  nodes, which is enough on a tree.
\<close>

fun descend_last :: "nat \<Rightarrow> (int \<rightharpoonup> Message) \<Rightarrow> int \<Rightarrow> int" where
  "descend_last 0 nodeMap i = i"
| "descend_last (Suc k) nodeMap i =
     (case nodeMap i of
        None \<Rightarrow> i
      | Some n \<Rightarrow> if children n = [] then i else descend_last k nodeMap (last (children n)))"

fun walk_up :: "nat \<Rightarrow> (int \<rightharpoonup> Message) \<Rightarrow> int \<Rightarrow> Message list" where
  "walk_up 0 nodeMap i = []"
| "walk_up (Suc k) nodeMap i =
     (case nodeMap i of None \<Rightarrow> [] | Some n \<Rightarrow> n # walk_up k nodeMap (parent n))"

definition filterByLeafNodeId :: "Message list \<Rightarrow> int \<Rightarrow> bool \<Rightarrow> Message list" where
  "filterByLeafNodeId msgs leafNodeId includeRoot =
     (let nodeMap = nodeMap_of msgs;
          start = (if leafNodeId = - 1
                   then (case find (\<lambda>m. type m = Root) msgs of
                           None \<Rightarrow> - 1
                         | Some r \<Rightarrow> descend_last (length msgs) nodeMap (id_msg r))
                   else leafNodeId);
          path = rev (walk_up (length msgs) nodeMap start)
      in if includeRoot then path else filter (\<lambda>m. type m \<noteq> Root) path)"

section \<open>Example data\<close>

text \<open>
  The tree of the specification's scenario: root 1 with the user messages 2 and 4 below
  it, the assistant message 3 below 2; and a node 9 whose parent 77 is not stored.
\<close>

definition ex_node :: "int \<Rightarrow> msg_type \<Rightarrow> msg_role \<Rightarrow> int \<Rightarrow> int list \<Rightarrow> Message" where
  "ex_node i t r p cs =
     \<lparr>id_msg = i, convId = ''conv-1'', type = t, timestamp = i, role = r, content = ''x'',
      timings = None, extra = None, parent = p, children = cs\<rparr>"

definition ex_msgs :: "Message list" where
  "ex_msgs = [ex_node 1 Root System (- 1) [2, 4], ex_node 2 Text User 1 [3],
              ex_node 3 Text Assistant 2 [], ex_node 4 Text User 1 [],
              ex_node 9 Text User 77 []]"

definition empty_state :: AppState where
  "empty_state =
     \<lparr>pendingMessages = Map.empty, aborts = Map.empty,
      storage = \<lparr>conversations = [], messages = []\<rparr>,
      alerts = [], onChunkCalls = [], navigations = []\<rparr>"

definition text_chunk :: "string \<Rightarrow> Chunk" where
  "text_chunk s = \<lparr>chunk_error = None, choices = [Some s], chunk_timings = None\<rparr>"

text \<open>A conversation \<^verbatim>\<open>conv-1000\<close> with its root 1000 and the user message 1001.\<close>

definition ex_state :: AppState where
  "ex_state =
     (case startConversation empty_state ''hello'' 1000 of
        (c, l, st) \<Rightarrow> appendMsg_unawaited st (userNode 1001 c ''hello'' None l) l)"

definition ex_gen :: "int \<Rightarrow> fetch_reply \<Rightarrow> GenEnv" where
  "ex_gen now r = \<lparr>genNow = now, showTokensPerSecond = False, reply = r\<rparr>"

definition ex_send :: "rag_reply \<Rightarrow> int \<Rightarrow> int \<Rightarrow> int \<Rightarrow> fetch_reply \<Rightarrow> SendEnv" where
  "ex_send r t0 t1 t2 rep = \<lparr>rag = r, convNow = t0, userNow = t1, gen = ex_gen t2 rep\<rparr>"

definition hello_stream :: "pull list" where
  "hello_stream = [Yield (text_chunk ''Hel''), Yield (text_chunk ''lo'')]"

definition stopped_stream :: "pull list" where
  "stopped_stream = [Yield (text_chunk ''Hel''), UserStop, Yield (text_chunk ''lo'')]"

section \<open>Invariants of a run\<close>

text \<open>Two pending messages that differ in content and timings at most.\<close>

definition same_node :: "PendingMessage \<Rightarrow> PendingMessage \<Rightarrow> bool" where
  "same_node a b = (\<exists>x tm. a = b\<lparr>content := x, timings := tm\<rparr>)"

text \<open>
  What the request and the loop leave as they found it: the node under construction up to
  content and timings, the store, the alerts and the navigation targets; the callback log
  only grows.
\<close>

definition run_keeps ::
  "PendingMessage \<Rightarrow> AppState \<Rightarrow> exn option \<times> PendingMessage \<times> AppState \<Rightarrow> bool" where
  "run_keeps pm st res =
     (case res of
        (r, pm1, st1) \<Rightarrow>
          same_node pm1 pm \<and> storage st1 = storage st \<and> alerts st1 = alerts st \<and>
          navigations st1 = navigations st \<and> prefix (onChunkCalls st) (onChunkCalls st1))"

section \<open>What a send is meant to leave in the store\<close>

text \<open>
  What a stored node shows of itself apart from its children: id, role, content and
  parent. Appending a child changes nothing of it in the nodes stored before.
\<close>

definition node_view :: "Message \<Rightarrow> int \<times> msg_role \<times> string \<times> int" where
  "node_view m = (id_msg m, role m, content m, parent m)"

definition conversation_view :: "AppState \<Rightarrow> string \<Rightarrow> (int \<times> msg_role \<times> string \<times> int) list" where
  "conversation_view st c = map node_view (getMessages (storage st) c)"

text \<open>The condition of line 320 under which sendMessage creates a conversation.\<close>

definition creates_conversation :: "string option \<Rightarrow> int option \<Rightarrow> bool" where
  "creates_conversation convId_in leafNodeId =
     (convId_in = None \<or> convId_in = Some [] \<or> leafNodeId = None)"

text \<open>
  The conversation and the leaf a send works on: those of the new conversation when one
  is created at the clock reading \<open>now\<close>, the given ones otherwise.
\<close>

definition target_conversation :: "string option \<Rightarrow> int option \<Rightarrow> int \<Rightarrow> string" where
  "target_conversation convId_in leafNodeId now =
     (if creates_conversation convId_in leafNodeId then ''conv-'' @ show_int now
      else (case convId_in of None \<Rightarrow> [] | Some c \<Rightarrow> c))"

definition target_leaf :: "string option \<Rightarrow> int option \<Rightarrow> int \<Rightarrow> int" where
  "target_leaf convId_in leafNodeId now =
     (if creates_conversation convId_in leafNodeId then now
      else (case leafNodeId of None \<Rightarrow> - 1 | Some l \<Rightarrow> l))"

text \<open>
  The send can store its user node: a conversation is created, or the given leaf is a
  node of the given conversation.
\<close>

definition target_stored :: "AppState \<Rightarrow> string option \<Rightarrow> int option \<Rightarrow> bool" where
  "target_stored st convId_in leafNodeId =
     (creates_conversation convId_in leafNodeId \<or>
      (getOneConversation (storage st) (case convId_in of None \<Rightarrow> [] | Some c \<Rightarrow> c) \<noteq> None \<and>
       has_node (storage st) (case convId_in of None \<Rightarrow> [] | Some c \<Rightarrow> c)
         (case leafNodeId of None \<Rightarrow> - 1 | Some l \<Rightarrow> l)))"

text \<open>The views of the nodes a completed run adds to its conversation, in creation order.\<close>

definition root_view :: "string option \<Rightarrow> int option \<Rightarrow> int \<Rightarrow> (int \<times> msg_role \<times> string \<times> int) list" where
  "root_view convId_in leafNodeId now =
     (if creates_conversation convId_in leafNodeId then [(now, System, [], - 1)] else [])"

definition assistant_view :: "int \<Rightarrow> string \<Rightarrow> int \<Rightarrow> (int \<times> msg_role \<times> string \<times> int) list" where
  "assistant_view genReading body_text leafNodeId =
     (if body_text = [] then [] else [(genReading + 1, Assistant, body_text, leafNodeId)])"

text \<open>
  The reply delivers exactly the chunks \<open>cs\<close>, all of them accepted by the loop, and
  then the stream ends or the user stops the generation.
\<close>

definition delivers :: "fetch_reply \<Rightarrow> Chunk list \<Rightarrow> bool" where
  "delivers rep cs =
     (list_all well_formed cs \<and>
      ((\<exists>body. rep = Response 200 body (map Yield cs)) \<or>
       (\<exists>body rest. rep = Response 200 body (map Yield cs @ UserStop # rest)) \<or>
       (\<exists>r. rep = RequestStopped r \<and> cs = [])))"

section \<open>Branch display: proofs\<close>


lemma nodeMap_of_fold_id:
  "fold (\<lambda>msg m. m(id_msg msg \<mapsto> msg)) msgs m i = Some n \<Longrightarrow>
   (\<forall>j k. m j = Some k \<longrightarrow> id_msg k = j) \<Longrightarrow> id_msg n = i"
proof (induction msgs arbitrary: m)
  case Nil
  then show ?case by simp
next
  case (Cons a msgs)
  have "\<forall>j k. (m(id_msg a \<mapsto> a)) j = Some k \<longrightarrow> id_msg k = j"
    using Cons.prems(2) by (auto split: if_splits)
  moreover have "fold (\<lambda>msg m. m(id_msg msg \<mapsto> msg)) msgs (m(id_msg a \<mapsto> a)) i = Some n"
    using Cons.prems(1) by (simp only: fold_Cons comp_apply)
  ultimately show ?case by (rule Cons.IH [rotated])
qed

lemma nodeMap_of_id: "nodeMap_of msgs i = Some n \<Longrightarrow> id_msg n = i"
  unfolding nodeMap_of_def by (erule nodeMap_of_fold_id) simp

lemma dom_fold_upd:
  "dom (fold (\<lambda>msg m. m(id_msg msg \<mapsto> msg)) msgs m) = dom m \<union> id_msg ` set msgs"
  by (induction msgs arbitrary: m) auto

lemma dom_nodeMap_of: "dom (nodeMap_of msgs) = id_msg ` set msgs"
  by (simp add: nodeMap_of_def dom_fold_upd)

lemma finite_dom_nodeMap_of: "finite (dom (nodeMap_of msgs))"
  by (simp add: dom_nodeMap_of)

lemma at_last_or_last: "xs \<noteq> [] \<Longrightarrow> at_last_or xs = last xs"
  by (cases xs) (simp_all add: at_last_or_def)

lemma findLeafNode_loop_sound:
  assumes "findLeafNode_loop nodeMap cur = Some r"
  shows "(cur = None \<longrightarrow> r = None) \<and>
     (\<forall>n i. cur = Some n \<longrightarrow> nodeMap i = Some n \<longrightarrow> last_child_descent nodeMap i (leaf_id r))"
  using assms
proof (induction nodeMap cur r rule: findLeafNode_loop.raw_induct [rotated 1, consumes 1])
  case (1 findLeafNode_loop nodeMap currNode r)
  show ?case
  proof (cases currNode)
    case None
    with 1(2) show ?thesis by simp
  next
    case (Some n)
    show ?thesis
    proof (cases "children n = []")
      case True
      with Some 1(2) have "r = Some n" by simp
      with True Some show ?thesis
        by (auto simp: leaf_id_def intro: last_child_descent.leaf)
    next
      case False
      with Some 1(2) have rec: "findLeafNode_loop nodeMap (nodeMap (last (children n))) = Some r"
        by (simp add: at_last_or_last)
      note ih = 1(1) [OF rec]
      have "last_child_descent nodeMap (last (children n)) (leaf_id r)"
      proof (cases "nodeMap (last (children n))")
        case None
        with ih have "r = None" by simp
        with None show ?thesis
          by (simp add: leaf_id_def last_child_descent.absent)
      next
        case (Some n')
        with ih show ?thesis by blast
      qed
      with False Some show ?thesis
        by (auto intro: last_child_descent.step)
    qed
  qed
qed

lemma findLeafNode_sound:
  assumes "findLeafNode nodeMap i = Some l"
  shows "last_child_descent nodeMap i l"
proof -
  from assms obtain r where r: "findLeafNode_loop nodeMap (nodeMap i) = Some r"
    and l: "l = leaf_id r"
    by (auto simp: findLeafNode_def leaf_id_def)
  show ?thesis
  proof (cases "nodeMap i")
    case None
    with findLeafNode_loop_sound [OF r] have "r = None" by simp
    with None l show ?thesis by (simp add: leaf_id_def last_child_descent.absent)
  next
    case (Some n)
    with findLeafNode_loop_sound [OF r] l show ?thesis by blast
  qed
qed

lemma last_child_descent_unique:
  "last_child_descent nodeMap i l \<Longrightarrow> last_child_descent nodeMap i l' \<Longrightarrow> l = l'"
proof (induction arbitrary: l' rule: last_child_descent.induct)
  case (absent i)
  from absent(2) absent(1) show ?case by (cases rule: last_child_descent.cases) auto
next
  case (leaf i n)
  from leaf(3) leaf(1,2) show ?case by (cases rule: last_child_descent.cases) auto
next
  case (step i n l)
  from step(5) step(1,2) step(4) show ?case by (cases rule: last_child_descent.cases) auto
qed

lemma finite_child_links:
  assumes "finite (dom nodeMap)"
  shows "finite (child_links nodeMap)"
proof -
  have "child_links nodeMap \<subseteq> (\<Union>p \<in> dom nodeMap. {p} \<times> set (children (the (nodeMap p))))"
    by (auto simp: child_links_def)
  moreover have "finite (\<Union>p \<in> dom nodeMap. {p} \<times> set (children (the (nodeMap p))))"
    using assms by auto
  ultimately show ?thesis by (rule finite_subset)
qed

lemma findLeafNode_total:
  assumes fin: "finite (dom nodeMap)" and acyc: "acyclic (child_links nodeMap)"
  shows "\<exists>l. findLeafNode nodeMap i = Some l"
proof -
  have wf: "wf ((child_links nodeMap)\<inverse>)"
    using finite_child_links [OF fin] acyc by (rule finite_acyclic_wf_converse)
  have "\<exists>r. findLeafNode_loop nodeMap (nodeMap i) = Some r"
    using wf
  proof (induction i rule: wf_induct_rule)
    case (less i)
    show ?case
    proof (cases "nodeMap i")
      case None
      then show ?thesis by (simp add: findLeafNode_loop.simps)
    next
      case (Some n)
      show ?thesis
      proof (cases "children n = []")
        case True
        with Some show ?thesis by (simp add: findLeafNode_loop.simps)
      next
        case False
        then have "(i, last (children n)) \<in> child_links nodeMap"
          using Some by (auto simp: child_links_def)
        then have "\<exists>r. findLeafNode_loop nodeMap (nodeMap (last (children n))) = Some r"
          by (intro less.IH) simp
        with False Some show ?thesis
          by (subst findLeafNode_loop.simps) (simp add: at_last_or_last)
      qed
    qed
  qed
  then show ?thesis by (auto simp: findLeafNode_def)
qed


lemma indexOf_from_notin: "x \<notin> set xs \<Longrightarrow> indexOf_from xs x k = - 1"
  by (induction xs arbitrary: k) auto

lemma indexOf_from_in:
  "x \<in> set xs \<Longrightarrow>
     k \<le> indexOf_from xs x k \<and> nat (indexOf_from xs x k - k) < length xs \<and>
     xs ! nat (indexOf_from xs x k - k) = x \<and>
     (\<forall>j < nat (indexOf_from xs x k - k). xs ! j \<noteq> x)"
proof (induction xs arbitrary: k)
  case Nil
  then show ?case by simp
next
  case (Cons y ys)
  show ?case
  proof (cases "y = x")
    case True
    then show ?thesis by simp
  next
    case False
    with Cons.prems have "x \<in> set ys" by simp
    note ih = Cons.IH [OF this, of "k + 1"]
    define r where "r = indexOf_from ys x (k + 1)"
    from ih have r: "k + 1 \<le> r" "nat (r - (k + 1)) < length ys"
      "ys ! nat (r - (k + 1)) = x" "\<forall>j < nat (r - (k + 1)). ys ! j \<noteq> x"
      by (simp_all add: r_def)
    have eq: "nat (r - k) = Suc (nat (r - (k + 1)))"
      using r(1) by simp
    have "\<forall>j < nat (r - k). (y # ys) ! j \<noteq> x"
    proof (intro allI impI)
      fix j assume "j < nat (r - k)"
      then show "(y # ys) ! j \<noteq> x"
        using r(4) False eq by (cases j) auto
    qed
    moreover have "indexOf_from (y # ys) x k = r"
      using False by (simp add: r_def)
    ultimately show ?thesis
      using r eq by simp
  qed
qed

lemma indexOf_first_position: "first_position xs x (indexOf xs x)"
  using indexOf_from_in [of x xs 0] indexOf_from_notin [of x xs 0]
  by (simp add: first_position_def indexOf_def)

lemma those_map_Some:
  "those (map f xs) = Some ys \<Longrightarrow> list_all2 (\<lambda>x y. f x = Some y) xs ys"
  by (induction xs arbitrary: ys) (auto split: option.splits)

lemma those_map_total:
  "(\<And>x. x \<in> set xs \<Longrightarrow> \<exists>y. f x = Some y) \<Longrightarrow> \<exists>ys. those (map f xs) = Some ys"
  by (induction xs) (auto split: option.splits)

lemma map_findLeafNode_sound:
  assumes "map_findLeafNode nodeMap cs = Some ls"
  shows "list_all2 (last_child_descent nodeMap) cs ls"
proof -
  have "list_all2 (\<lambda>x y. findLeafNode nodeMap x = Some y) cs ls"
    using assms unfolding map_findLeafNode_def by (rule those_map_Some)
  then show ?thesis
    by (rule list_all2_mono) (rule findLeafNode_sound)
qed

lemma display_loop_sound:
  "display_loop nodeMap ms acc = Some res \<Longrightarrow>
     \<exists>new. res = acc @ new \<and> list_all2 (entry_for nodeMap) (filter (shown nodeMap) ms) new"
proof (induction ms arbitrary: acc)
  case Nil
  then show ?case by simp
next
  case (Cons m ms)
  show ?case
  proof (cases "shown nodeMap m")
    case False
    with Cons.prems have "display_loop nodeMap ms acc = Some res"
      by (auto simp: shown_def Let_def split: option.splits)
    from Cons.IH [OF this] False show ?thesis by simp
  next
    case True
    then obtain p where p: "nodeMap (parent m) = Some p" and t: "type m \<noteq> Root"
      by (auto simp: shown_def)
    from Cons.prems p t obtain ls where ls: "map_findLeafNode nodeMap (children p) = Some ls"
      and rec: "display_loop nodeMap ms
        (acc @ [\<lparr>msg = m, siblingLeafNodeIds = ls,
                 siblingCurrIdx = indexOf (children p) (id_msg m)\<rparr>]) = Some res"
      by (auto simp: Let_def split: option.splits)
    define e where "e = \<lparr>msg = m, siblingLeafNodeIds = ls,
                 siblingCurrIdx = indexOf (children p) (id_msg m)\<rparr>"
    have e: "entry_for nodeMap m e"
      using p map_findLeafNode_sound [OF ls] indexOf_first_position
      by (simp add: entry_for_def e_def)
    from Cons.IH [OF rec] obtain new where
      new: "res = (acc @ [e]) @ new" "list_all2 (entry_for nodeMap) (filter (shown nodeMap) ms) new"
      unfolding e_def by blast
    have "res = acc @ (e # new)" using new(1) by simp
    moreover have "list_all2 (entry_for nodeMap) (filter (shown nodeMap) (m # ms)) (e # new)"
      using True e new(2) by simp
    ultimately show ?thesis by blast
  qed
qed

lemma display_loop_total:
  assumes "\<And>i. \<exists>l. findLeafNode nodeMap i = Some l"
  shows "\<exists>res. display_loop nodeMap ms acc = Some res"
proof (induction ms arbitrary: acc)
  case Nil
  then show ?case by simp
next
  case (Cons m ms)
  have tot: "\<And>cs. \<exists>ls. map_findLeafNode nodeMap cs = Some ls"
    unfolding map_findLeafNode_def using assms by (intro those_map_total) blast
  show ?case
  proof (cases "nodeMap (parent m)")
    case None
    with Cons.IH show ?thesis by simp
  next
    case (Some p)
    obtain ls where "map_findLeafNode nodeMap (children p) = Some ls"
      using tot by blast
    with Some Cons.IH show ?thesis by (simp add: Let_def)
  qed
qed

lemma getListMessageDisplay_sound:
  assumes "getListMessageDisplay flt msgs leafNodeId = Some res"
  shows "list_all2 (entry_for (nodeMap_of msgs))
           (filter (shown (nodeMap_of msgs)) (flt msgs leafNodeId True)) res"
  using display_loop_sound [of "nodeMap_of msgs" "flt msgs leafNodeId True" "[]" res] assms
  by (simp add: getListMessageDisplay_def)

lemma list_all2_entry_msg:
  "list_all2 (entry_for nodeMap) ms res \<Longrightarrow> map msg res = ms"
  by (induction rule: list_all2_induct) (simp_all add: entry_for_def)

text \<open>
  Claim C4. For every node set and leaf id, the display list is returned when the child
  links are acyclic, and whenever it is returned every path node that is no root and
  whose parent is in the node map has a display entry, and
  each entry of such a node lists, child by child of the parent in children order, the
  leaf that the last-child descent from that child reaches (\<^verbatim>\<open>-1\<close> where the
  descent leaves the node map), while its index is the first position of the node among
  the parent's children (\<^verbatim>\<open>-1\<close> if the parent does not list it).
\<close>

theorem getListMessageDisplay_siblings:
  assumes "m \<in> set (flt msgs leafNodeId True)"
    and "type m \<noteq> Root"
    and "nodeMap_of msgs (parent m) = Some p"
  shows "(acyclic (child_links (nodeMap_of msgs)) \<longrightarrow>
            (\<exists>res. getListMessageDisplay flt msgs leafNodeId = Some res)) \<and>
         (\<forall>res. getListMessageDisplay flt msgs leafNodeId = Some res \<longrightarrow>
            (\<exists>e \<in> set res. msg e = m) \<and>
            (\<forall>e \<in> set res. msg e = m \<longrightarrow>
               list_all2 (last_child_descent (nodeMap_of msgs)) (children p)
                 (siblingLeafNodeIds e) \<and>
               first_position (children p) (id_msg m) (siblingCurrIdx e)))"
proof (intro conjI allI impI)
  assume "acyclic (child_links (nodeMap_of msgs))"
  then have "\<And>i. \<exists>l. findLeafNode (nodeMap_of msgs) i = Some l"
    by (intro findLeafNode_total finite_dom_nodeMap_of)
  then show "\<exists>res. getListMessageDisplay flt msgs leafNodeId = Some res"
    unfolding getListMessageDisplay_def Let_def by (rule display_loop_total)
next
  fix res assume r: "getListMessageDisplay flt msgs leafNodeId = Some res"
  let ?nm = "nodeMap_of msgs"
  let ?path = "filter (shown ?nm) (flt msgs leafNodeId True)"
  have all: "list_all2 (entry_for ?nm) ?path res"
    using r by (rule getListMessageDisplay_sound)
  have "m \<in> set ?path"
    using assms by (simp add: shown_def)
  then have "m \<in> set (map msg res)"
    using list_all2_entry_msg [OF all] by simp
  then show "\<exists>e \<in> set res. msg e = m" by auto
  have "\<forall>e \<in> set res. entry_for ?nm (msg e) e"
  proof
    fix e assume "e \<in> set res"
    then obtain k where k: "k < length res" "res ! k = e"
      by (auto simp: in_set_conv_nth)
    with all have "entry_for ?nm (?path ! k) e"
      by (auto simp: list_all2_conv_all_nth)
    then show "entry_for ?nm (msg e) e"
      by (simp add: entry_for_def)
  qed
  with assms(3) show "\<forall>e \<in> set res. msg e = m \<longrightarrow>
      list_all2 (last_child_descent ?nm) (children p) (siblingLeafNodeIds e) \<and>
      first_position (children p) (id_msg m) (siblingCurrIdx e)"
    by (auto simp: entry_for_def)
qed

text \<open>
  Claim C7. For every node set and leaf id, the messages of the display list are exactly
  the path nodes that are no root and whose parent is in the node map, in path order: no
  entry is a root, and an orphaned node is left out without any other effect. On acyclic
  child links the display list is always returned.
\<close>

theorem getListMessageDisplay_excludes:
  "(\<forall>res. getListMessageDisplay flt msgs leafNodeId = Some res \<longrightarrow>
      map msg res =
        filter (\<lambda>m. nodeMap_of msgs (parent m) \<noteq> None \<and> type m \<noteq> Root)
          (flt msgs leafNodeId True) \<and>
      (\<forall>e \<in> set res. type (msg e) \<noteq> Root \<and> nodeMap_of msgs (parent (msg e)) \<noteq> None)) \<and>
   (acyclic (child_links (nodeMap_of msgs)) \<longrightarrow>
      (\<exists>res. getListMessageDisplay flt msgs leafNodeId = Some res))"
proof (intro conjI allI impI)
  fix res assume r: "getListMessageDisplay flt msgs leafNodeId = Some res"
  have "map msg res = filter (shown (nodeMap_of msgs)) (flt msgs leafNodeId True)"
    using getListMessageDisplay_sound [OF r] by (rule list_all2_entry_msg)
  then show m: "map msg res =
        filter (\<lambda>m. nodeMap_of msgs (parent m) \<noteq> None \<and> type m \<noteq> Root)
          (flt msgs leafNodeId True)"
    by (simp add: shown_def [abs_def])
  show "\<forall>e \<in> set res. type (msg e) \<noteq> Root \<and> nodeMap_of msgs (parent (msg e)) \<noteq> None"
  proof
    fix e assume "e \<in> set res"
    then have "msg e \<in> set (map msg res)" by simp
    then show "type (msg e) \<noteq> Root \<and> nodeMap_of msgs (parent (msg e)) \<noteq> None"
      unfolding m by simp
  qed
next
  assume "acyclic (child_links (nodeMap_of msgs))"
  then have "\<And>i. \<exists>l. findLeafNode (nodeMap_of msgs) i = Some l"
    by (intro findLeafNode_total finite_dom_nodeMap_of)
  then show "\<exists>res. getListMessageDisplay flt msgs leafNodeId = Some res"
    unfolding getListMessageDisplay_def Let_def by (rule display_loop_total)
qed

text \<open>
  Claim C10. On a node map built from a message list whose child links are acyclic,
  the descent from any starting id ends, and its result is the one value that following
  last-child links determines: the id of the first node without children, or
  \<^verbatim>\<open>-1\<close> when the starting id or a followed child id is not in the map. The model
  has no error branch, so nothing is thrown.
\<close>

theorem findLeafNode_acyclic_total:
  assumes "acyclic (child_links (nodeMap_of msgs))"
  shows "\<exists>l. findLeafNode (nodeMap_of msgs) i = Some l \<and>
             last_child_descent (nodeMap_of msgs) i l \<and>
             (\<forall>l'. last_child_descent (nodeMap_of msgs) i l' \<longrightarrow> l' = l)"
proof -
  obtain l where l: "findLeafNode (nodeMap_of msgs) i = Some l"
    using findLeafNode_total [OF finite_dom_nodeMap_of assms] by blast
  then have d: "last_child_descent (nodeMap_of msgs) i l"
    by (rule findLeafNode_sound)
  with l show ?thesis
    by (blast intro: last_child_descent_unique)
qed


lemma ex_acyclic: "acyclic (child_links (nodeMap_of ex_msgs))"
proof (rule acyclicI_order [where f = "\<lambda>i. - i"])
  fix a b assume "(a, b) \<in> child_links (nodeMap_of ex_msgs)"
  then show "- b < - a"
    by (auto simp: child_links_def nodeMap_of_def ex_msgs_def ex_node_def split: if_splits)
qed

lemma ex_leaf1: "findLeafNode (nodeMap_of ex_msgs) 1 = Some 4"
  by (simp add: findLeafNode_def findLeafNode_loop.simps nodeMap_of_def ex_msgs_def ex_node_def at_last_or_def)

theorem findLeafNode_acyclic_total_witness:
  "acyclic (child_links (nodeMap_of ex_msgs)) \<and>
   findLeafNode (nodeMap_of ex_msgs) 1 = Some 4 \<and>
   last_child_descent (nodeMap_of ex_msgs) 1 4 \<and>
   findLeafNode (nodeMap_of ex_msgs) 77 = Some (- 1)"
proof -
  have h: "acyclic (child_links (nodeMap_of ex_msgs))"
    by (rule ex_acyclic)
  have v: "findLeafNode (nodeMap_of ex_msgs) 1 = Some 4"
    by (rule ex_leaf1)
  have w: "findLeafNode (nodeMap_of ex_msgs) 77 = Some (- 1)"
    by (simp add: findLeafNode_def findLeafNode_loop.simps nodeMap_of_def ex_msgs_def ex_node_def)
  from findLeafNode_acyclic_total [OF h, of 1] v have "last_child_descent (nodeMap_of ex_msgs) 1 4"
    by auto
  with h v w show ?thesis by simp
qed


lemma ex_path: "filterByLeafNodeId ex_msgs 3 True = [ex_node 1 Root System (- 1) [2, 4], ex_node 2 Text User 1 [3],
              ex_node 3 Text Assistant 2 []]"
  by (simp add: filterByLeafNodeId_def nodeMap_of_def ex_msgs_def ex_node_def)

lemma ex_display: "getListMessageDisplay filterByLeafNodeId ex_msgs 3 =
   Some [\<lparr>msg = ex_node 2 Text User 1 [3], siblingLeafNodeIds = [3, 4], siblingCurrIdx = 0\<rparr>,
         \<lparr>msg = ex_node 3 Text Assistant 2 [], siblingLeafNodeIds = [3], siblingCurrIdx = 0\<rparr>]"
  unfolding getListMessageDisplay_def ex_path
  by (simp add: Let_def map_findLeafNode_def indexOf_def findLeafNode_def findLeafNode_loop.simps nodeMap_of_def ex_msgs_def ex_node_def at_last_or_def)


lemma ex_path9: "filterByLeafNodeId ex_msgs 9 True = [ex_node 9 Text User 77 []]"
  by (simp add: filterByLeafNodeId_def nodeMap_of_def ex_msgs_def ex_node_def)

lemma ex_display9: "getListMessageDisplay filterByLeafNodeId ex_msgs 9 = Some []"
  unfolding getListMessageDisplay_def ex_path9
  by (simp add: nodeMap_of_def ex_msgs_def ex_node_def)

theorem getListMessageDisplay_siblings_witness:
  "getListMessageDisplay filterByLeafNodeId ex_msgs 3 =
     Some [\<lparr>msg = ex_node 2 Text User 1 [3], siblingLeafNodeIds = [3, 4], siblingCurrIdx = 0\<rparr>,
           \<lparr>msg = ex_node 3 Text Assistant 2 [], siblingLeafNodeIds = [3], siblingCurrIdx = 0\<rparr>] \<and>
   ex_node 2 Text User 1 [3] \<in> set (filterByLeafNodeId ex_msgs 3 True) \<and>
   nodeMap_of ex_msgs 1 = Some (ex_node 1 Root System (- 1) [2, 4]) \<and>
   list_all2 (last_child_descent (nodeMap_of ex_msgs)) [2, 4] [3, 4] \<and>
   first_position [2, 4] 2 0"
proof -
  let ?m = "ex_node 2 Text User 1 [3]"
  let ?p = "ex_node 1 Root System (- 1) [2, 4]"
  have d: "getListMessageDisplay filterByLeafNodeId ex_msgs 3 =
     Some [\<lparr>msg = ?m, siblingLeafNodeIds = [3, 4], siblingCurrIdx = 0\<rparr>,
           \<lparr>msg = ex_node 3 Text Assistant 2 [], siblingLeafNodeIds = [3], siblingCurrIdx = 0\<rparr>]"
    by (rule ex_display)
  have m: "?m \<in> set (filterByLeafNodeId ex_msgs 3 True)"
    by (simp add: ex_path)
  have t: "type ?m \<noteq> Root"
    by (simp add: ex_node_def)
  have p: "nodeMap_of ex_msgs (parent ?m) = Some ?p"
    by (simp add: nodeMap_of_def ex_msgs_def ex_node_def)
  have "list_all2 (last_child_descent (nodeMap_of ex_msgs)) [2, 4] [3, 4] \<and> first_position [2, 4] 2 0"
    using getListMessageDisplay_siblings
      [of ?m filterByLeafNodeId ex_msgs 3 ?p, OF m t p] d
    by (simp add: ex_node_def)
  with d m p show ?thesis by (simp add: ex_node_def)
qed

theorem getListMessageDisplay_excludes_witness:
  "getListMessageDisplay filterByLeafNodeId ex_msgs 9 = Some [] \<and>
   filterByLeafNodeId ex_msgs 9 True = [ex_node 9 Text User 77 []] \<and>
   nodeMap_of ex_msgs 77 = None \<and>
   acyclic (child_links (nodeMap_of ex_msgs)) \<and>
   map msg (the (getListMessageDisplay filterByLeafNodeId ex_msgs 3)) =
     [ex_node 2 Text User 1 [3], ex_node 3 Text Assistant 2 []]"
proof -
  have a: "acyclic (child_links (nodeMap_of ex_msgs))"
    by (rule ex_acyclic)
  from getListMessageDisplay_excludes [of filterByLeafNodeId ex_msgs 3] a
  obtain res where res: "getListMessageDisplay filterByLeafNodeId ex_msgs 3 = Some res"
    and m: "map msg res =
        filter (\<lambda>m. nodeMap_of ex_msgs (parent m) \<noteq> None \<and> type m \<noteq> Root)
          (filterByLeafNodeId ex_msgs 3 True)"
    by blast
  have "map msg res = [ex_node 2 Text User 1 [3], ex_node 3 Text Assistant 2 []]"
    unfolding m ex_path by (simp add: nodeMap_of_def ex_msgs_def ex_node_def)
  with res a ex_display9 ex_path9 show ?thesis
    by (simp add: nodeMap_of_def ex_msgs_def ex_node_def)
qed

section \<open>Generation controller: proofs\<close>

subsection \<open>The streaming loop\<close>

lemma acc_content_acc: "acc_content (acc_content c t1) t2 = acc_content c (t1 @ t2)"
  by (simp add: acc_content_def)

lemma acc_content_None: "acc_content None t = (if t = [] then None else Some t)"
  by (simp add: acc_content_def)

lemma applyChunk_well_formed:
  assumes "well_formed chunk"
  shows "\<exists>tm. applyChunk sh chunk pm =
           Inr (pm\<lparr>content := acc_content (content pm) (delta_content chunk), timings := tm\<rparr>)"
proof -
  from assms obtain a rest where ch: "chunk_error chunk = None" "choices chunk = a # rest"
    by (cases "choices chunk") (auto simp: well_formed_def)
  define tm where "tm = (case chunk_timings chunk of None \<Rightarrow> timings pm
     | Some t \<Rightarrow> if sh then Some \<lparr>prompt_n = prompt_n t, prompt_ms = prompt_ms t,
                                        predicted_n = predicted_n t,
                                        predicted_ms = predicted_ms t\<rparr> else timings pm)"
  have c: "acc_content (content pm) (delta_content chunk) =
     (case a of None \<Rightarrow> content pm | Some t \<Rightarrow> if t = [] then content pm
        else Some ((case content pm of None \<Rightarrow> [] | Some x \<Rightarrow> x) @ t))"
    using ch by (simp add: acc_content_def delta_content_def split: option.splits)
  have "applyChunk sh chunk pm =
           Inr (pm\<lparr>content := acc_content (content pm) (delta_content chunk), timings := tm\<rparr>)"
    unfolding c tm_def applyChunk_def Let_def using ch
    by (simp split: option.splits)
  then show ?thesis ..
qed

lemma consume_well_formed:
  assumes "\<forall>ch \<in> set cs. well_formed ch"
  shows "\<exists>tm st1. consume sh c (map Yield cs @ rest) pm st =
             consume sh c rest (pm\<lparr>content := acc_content (content pm) (stream_text cs), timings := tm\<rparr>) st1 \<and>
           storage st1 = storage st \<and> aborts st1 = aborts st \<and> alerts st1 = alerts st \<and>
           navigations st1 = navigations st \<and>
           onChunkCalls st1 = onChunkCalls st @ replicate (length cs) None"
  using assms
proof (induction cs arbitrary: pm st)
  case Nil
  have "pm = pm\<lparr>content := content pm, timings := timings pm\<rparr>" by simp
  then show ?case
    by (auto simp: stream_text_def acc_content_def intro!: exI [of _ "timings pm"] exI [of _ st])
next
  case (Cons ch cs)
  then have wf: "well_formed ch" and wfs: "\<forall>ch \<in> set cs. well_formed ch" by simp_all
  from applyChunk_well_formed [OF wf, of sh pm] obtain tm where
    a: "applyChunk sh ch pm = Inr (pm\<lparr>content := acc_content (content pm) (delta_content ch), timings := tm\<rparr>)"
    by blast
  define pm1 where "pm1 = pm\<lparr>content := acc_content (content pm) (delta_content ch), timings := tm\<rparr>"
  define st1 where "st1 = onChunk (setPending st c (Some pm1)) None"
  from Cons.IH [OF wfs, of pm1 st1] obtain tm2 st2 where
    r: "consume sh c (map Yield cs @ rest) pm1 st1 =
          consume sh c rest (pm1\<lparr>content := acc_content (content pm1) (stream_text cs), timings := tm2\<rparr>) st2"
    and s: "storage st2 = storage st1" "aborts st2 = aborts st1" "alerts st2 = alerts st1"
      "navigations st2 = navigations st1"
      "onChunkCalls st2 = onChunkCalls st1 @ replicate (length cs) None"
    by blast
  have e: "pm1\<lparr>content := acc_content (content pm1) (stream_text cs), timings := tm2\<rparr> =
           pm\<lparr>content := acc_content (content pm) (stream_text (ch # cs)), timings := tm2\<rparr>"
    by (simp add: pm1_def acc_content_acc stream_text_def)
  have st1: "storage st1 = storage st" "aborts st1 = aborts st" "alerts st1 = alerts st"
    "navigations st1 = navigations st" "onChunkCalls st1 = onChunkCalls st @ [None]"
    by (simp_all add: st1_def onChunk_def setPending_def)
  have "consume sh c (map Yield (ch # cs) @ rest) pm st =
          consume sh c rest (pm\<lparr>content := acc_content (content pm) (stream_text (ch # cs)), timings := tm2\<rparr>) st2"
    using a r e by (simp add: pm1_def st1_def)
  moreover have "onChunkCalls st2 = onChunkCalls st @ replicate (length (ch # cs)) None"
    using s(5) st1(5) by (simp add: replicate_append_same)
  ultimately show ?case
    using s st1 by auto
qed


subsection \<open>Persisting the pending message\<close>

lemma persistPending_storage:
  "storage (snd (persistPending st c leaf pm pid)) =
     (case content pm of
        None \<Rightarrow> storage st
      | Some txt \<Rightarrow> storage_after_append (storage st) (asMessage pm txt) leaf)"
  by (simp add: persistPending_def storage_after_append_def onChunk_def setPending_def
           split: option.splits sum.splits)

lemma persistPending_pending:
  "pendingMessages st c = None \<Longrightarrow> pendingMessages (snd (persistPending st c leaf pm pid)) c = None"
  by (simp add: persistPending_def onChunk_def setPending_def split: option.splits sum.splits)

lemma persistPending_effects:
  "alerts (snd (persistPending st c leaf pm pid)) = alerts st \<and>
   navigations (snd (persistPending st c leaf pm pid)) = navigations st \<and>
   prefix (onChunkCalls st) (onChunkCalls (snd (persistPending st c leaf pm pid)))"
  by (simp add: persistPending_def onChunk_def setPending_def split: option.splits sum.splits)

lemma persistPending_ok:
  "fst (persistPending st c leaf pm pid) = Inr () \<longleftrightarrow>
     (case content pm of
        None \<Rightarrow> True
      | Some txt \<Rightarrow> (\<exists>s. appendMsg (storage st) (asMessage pm txt) leaf = Inr s))"
  by (simp add: persistPending_def split: option.splits sum.splits)

lemma asMessage_pending:
  "asMessage ((newPendingMsg pid c leaf)\<lparr>content := x, timings := tm\<rparr>) txt =
     assistantNode pid c leaf txt tm"
  by (simp add: assistantNode_def asMessage_def newPendingMsg_def)

subsection \<open>Runs of generateMessage\<close>

text \<open>The state in which the request is sent: controller registered, pending entry set.\<close>

lemma generateMessage_start:
  assumes "\<not> isGenerating st c" and "getOneConversation (storage st) c = Some conv"
  shows "generateMessage st c leaf env =
     (case runRequest (showTokensPerSecond env) c (reply env) (newPendingMsg (genNow env + 1) c leaf)
             (setPending (setAbort st c (Some False)) c (Some (newPendingMsg (genNow env + 1) c leaf))) of
        (Some err, pendingMsg, st3) \<Rightarrow>
          if exn_name err = ''AbortError''
          then persistPending (setPending st3 c None) c leaf pendingMsg (genNow env + 1)
          else (Inl err, alert (setPending st3 c None) (exn_message err))
      | (None, pendingMsg, st3) \<Rightarrow> persistPending st3 c leaf pendingMsg (genNow env + 1))"
  using assms by (simp add: generateMessage_def Let_def split: prod.splits option.splits)

lemma generateMessage_exhausted:
  assumes "\<not> isGenerating st c" and "getOneConversation (storage st) c = Some conv"
    and "reply env = Response 200 body (map Yield cs)"
    and "\<forall>ch \<in> set cs. well_formed ch"
  shows "\<exists>tm st3. generateMessage st c leaf env =
           persistPending st3 c leaf
             ((newPendingMsg (genNow env + 1) c leaf)
                \<lparr>content := acc_content None (stream_text cs), timings := tm\<rparr>) (genNow env + 1) \<and>
         storage st3 = storage st \<and> alerts st3 = alerts st \<and> navigations st3 = navigations st \<and>
         prefix (onChunkCalls st) (onChunkCalls st3)"
proof -
  let ?pm = "newPendingMsg (genNow env + 1) c leaf"
  let ?st2 = "setPending (setAbort st c (Some False)) c (Some ?pm)"
  from consume_well_formed [OF assms(4), of "showTokensPerSecond env" c "[]" ?pm ?st2]
  obtain tm st3 where
    r: "consume (showTokensPerSecond env) c (map Yield cs) ?pm ?st2 =
          (None, ?pm\<lparr>content := acc_content (content ?pm) (stream_text cs), timings := tm\<rparr>, st3)"
    and s: "storage st3 = storage ?st2" "alerts st3 = alerts ?st2" "navigations st3 = navigations ?st2"
      "onChunkCalls st3 = onChunkCalls ?st2 @ replicate (length cs) None"
    by auto
  have c0: "content ?pm = None" by (simp add: newPendingMsg_def)
  have "generateMessage st c leaf env =
          persistPending st3 c leaf (?pm\<lparr>content := acc_content None (stream_text cs), timings := tm\<rparr>)
            (genNow env + 1)"
    using r c0 by (simp add: generateMessage_start [OF assms(1,2)] assms(3))
  moreover have "storage st3 = storage st" "alerts st3 = alerts st" "navigations st3 = navigations st"
    "prefix (onChunkCalls st) (onChunkCalls st3)"
    using s by (simp_all add: setPending_def setAbort_def)
  ultimately show ?thesis by blast
qed

lemma stopGenerating_aborts:
  "aborts st c = Some a \<Longrightarrow> aborts (stopGenerating st c) c = Some True"
  by (simp add: stopGenerating_def setPending_def Let_def)

lemma stopGenerating_effects:
  "storage (stopGenerating st c) = storage st \<and> alerts (stopGenerating st c) = alerts st \<and>
   navigations (stopGenerating st c) = navigations st \<and>
   onChunkCalls (stopGenerating st c) = onChunkCalls st \<and>
   pendingMessages (stopGenerating st c) c = None"
  by (simp add: stopGenerating_def setPending_def Let_def split: option.splits)

lemma generateMessage_stopped:
  assumes "\<not> isGenerating st c" and "getOneConversation (storage st) c = Some conv"
    and "reply env = Response 200 body (map Yield cs @ UserStop # rest)"
    and "\<forall>ch \<in> set cs. well_formed ch"
  shows "\<exists>tm st4. generateMessage st c leaf env =
           persistPending st4 c leaf
             ((newPendingMsg (genNow env + 1) c leaf)
                \<lparr>content := acc_content None (stream_text cs), timings := tm\<rparr>) (genNow env + 1) \<and>
         storage st4 = storage st \<and> alerts st4 = alerts st \<and> navigations st4 = navigations st \<and>
         prefix (onChunkCalls st) (onChunkCalls st4) \<and> pendingMessages st4 c = None"
proof -
  let ?pm = "newPendingMsg (genNow env + 1) c leaf"
  let ?st2 = "setPending (setAbort st c (Some False)) c (Some ?pm)"
  from consume_well_formed [OF assms(4), of "showTokensPerSecond env" c "UserStop # rest" ?pm ?st2]
  obtain tm st3 where
    r: "consume (showTokensPerSecond env) c (map Yield cs @ UserStop # rest) ?pm ?st2 =
          consume (showTokensPerSecond env) c (UserStop # rest)
            (?pm\<lparr>content := acc_content (content ?pm) (stream_text cs), timings := tm\<rparr>) st3"
    and s: "storage st3 = storage ?st2" "aborts st3 = aborts ?st2" "alerts st3 = alerts ?st2"
      "navigations st3 = navigations ?st2"
      "onChunkCalls st3 = onChunkCalls ?st2 @ replicate (length cs) None"
    by blast
  have "aborts st3 c = Some False"
    using s(2) by (simp add: setPending_def setAbort_def)
  then have ab: "aborts (stopGenerating st3 c) c = Some True"
    by (rule stopGenerating_aborts)
  have c0: "content ?pm = None" by (simp add: newPendingMsg_def)
  define st4 where "st4 = setPending (stopGenerating st3 c) c None"
  have "generateMessage st c leaf env =
          persistPending st4 c leaf (?pm\<lparr>content := acc_content None (stream_text cs), timings := tm\<rparr>)
            (genNow env + 1)"
    using r c0 ab
    by (simp add: generateMessage_start [OF assms(1,2)] assms(3) Let_def AbortError_def st4_def)
  moreover have "storage st4 = storage st" "alerts st4 = alerts st" "navigations st4 = navigations st"
    "prefix (onChunkCalls st) (onChunkCalls st4)" "pendingMessages st4 c = None"
    using s stopGenerating_effects [of st3 c]
    by (simp_all add: st4_def setPending_def setAbort_def)
  ultimately show ?thesis by blast
qed

lemma generateMessage_stopped_request:
  assumes "\<not> isGenerating st c" and "getOneConversation (storage st) c = Some conv"
    and "reply env = RequestStopped r"
  shows "\<exists>st4. generateMessage st c leaf env =
           persistPending st4 c leaf (newPendingMsg (genNow env + 1) c leaf) (genNow env + 1) \<and>
         storage st4 = storage st \<and> alerts st4 = alerts st \<and> navigations st4 = navigations st \<and>
         prefix (onChunkCalls st) (onChunkCalls st4) \<and> pendingMessages st4 c = None"
proof -
  let ?pm = "newPendingMsg (genNow env + 1) c leaf"
  let ?st2 = "setPending (setAbort st c (Some False)) c (Some ?pm)"
  have "aborts ?st2 c = Some False"
    by (simp add: setPending_def setAbort_def)
  then have ab: "aborts (stopGenerating ?st2 c) c = Some True"
    by (rule stopGenerating_aborts)
  define st4 where "st4 = setPending (stopGenerating ?st2 c) c None"
  have "generateMessage st c leaf env = persistPending st4 c leaf ?pm (genNow env + 1)"
    using ab
    by (simp add: generateMessage_start [OF assms(1,2)] assms(3) Let_def AbortError_def st4_def)
  moreover have "storage st4 = storage st" "alerts st4 = alerts st" "navigations st4 = navigations st"
    "prefix (onChunkCalls st) (onChunkCalls st4)" "pendingMessages st4 c = None"
    using stopGenerating_effects [of ?st2 c]
    by (simp_all add: st4_def setPending_def setAbort_def)
  ultimately show ?thesis by blast
qed

subsection \<open>The store\<close>

lemma appendMsg_ok:
  assumes "getOneConversation s (convId m) = Some conv" and "has_node s (convId m) p"
  shows "\<exists>s1. appendMsg s m p = Inr s1 \<and>
           (\<exists>old. messages s1 = old @ [m\<lparr>parent := p\<rparr>] \<and> length old = length (messages s))"
  using assms by (simp add: appendMsg_def has_node_def)

lemma appendMsg_fails:
  "\<not> has_node s (convId m) p \<Longrightarrow> \<exists>e. appendMsg s m p = Inl e"
  by (simp add: appendMsg_def has_node_def split: option.splits)

lemma assistantNode_fields:
  "content (assistantNode pid c leaf txt tm) = txt \<and> role (assistantNode pid c leaf txt tm) = Assistant \<and>
   id_msg (assistantNode pid c leaf txt tm) = pid \<and> convId (assistantNode pid c leaf txt tm) = c \<and>
   parent (assistantNode pid c leaf txt tm) = leaf"
  by (simp add: assistantNode_def asMessage_def newPendingMsg_def)

lemma show_int_1000: "show_int 1000 = ''1000''"
  by code_simp

lemmas gen_defs =
  isGenerating_def appendMsg_def getOneConversation_def getMessages_def
  onChunk_def alert_def generateMessage_def newPendingMsg_def setAbort_def
  setPending_def stopGenerating_def applyChunk_def AbortError_def persistPending_def
  asMessage_def Let_def NotFoundError_def or_unknown_def


lemmas ex_defs = ex_gen_def ex_send_def text_chunk_def hello_stream_def stopped_stream_def

lemma ex_state_eval:
  "ex_state =
     \<lparr>pendingMessages = Map.empty, aborts = Map.empty,
      storage =
        \<lparr>conversations =
           [\<lparr>id_conv = ''conv-1000'', lastModified = 1001, currNode = 1001, name = ''hello''\<rparr>],
         messages =
           [\<lparr>id_msg = 1000, convId = ''conv-1000'', type = Root, timestamp = 1000, role = System,
             content = [], timings = None, extra = None, parent = - 1, children = [1001]\<rparr>,
            \<lparr>id_msg = 1001, convId = ''conv-1000'', type = Text, timestamp = 1001, role = User,
             content = ''hello'', timings = None, extra = None, parent = 1000, children = []\<rparr>]\<rparr>,
      alerts = [], onChunkCalls = [], navigations = [''/chat/conv-1000'']\<rparr>"
  by (simp add: ex_state_def empty_state_def startConversation_def createConversation_def
        show_int_1000 navigate_def appendMsg_unawaited_def appendMsg_def getOneConversation_def
        userNode_def NotFoundError_def Let_def)

lemma ex_state_conv:
  "\<not> isGenerating ex_state ''conv-1000'' \<and>
   getOneConversation (storage ex_state) ''conv-1000'' =
     Some \<lparr>id_conv = ''conv-1000'', lastModified = 1001, currNode = 1001, name = ''hello''\<rparr>"
  unfolding ex_state_eval by (simp add: gen_defs)

subsection \<open>Claims about generateMessage\<close>

text \<open>
  Claim C3. For every finite stream of chunks that the loop accepts and that ends
  without error or cancellation, the store after the run is the store before it when the
  stream carried no text, and otherwise the store after appending one assistant node
  whose content is the left-to-right concatenation of the chunk texts; when the leaf is a
  node of the conversation, that node is the last stored node.
\<close>

theorem generateMessage_persists_stream_text:
  assumes "\<not> isGenerating st c" and "getOneConversation (storage st) c = Some conv"
    and "reply env = Response 200 body (map Yield cs)"
    and "\<forall>ch \<in> set cs. well_formed ch"
  shows "\<exists>tm. (stream_text cs = [] \<longrightarrow> storage (snd (generateMessage st c leaf env)) = storage st) \<and>
     (stream_text cs \<noteq> [] \<longrightarrow>
        storage (snd (generateMessage st c leaf env)) =
          storage_after_append (storage st)
            (assistantNode (genNow env + 1) c leaf (stream_text cs) tm) leaf) \<and>
     (stream_text cs \<noteq> [] \<and> has_node (storage st) c leaf \<longrightarrow>
        (\<exists>old. messages (storage (snd (generateMessage st c leaf env))) =
                 old @ [assistantNode (genNow env + 1) c leaf (stream_text cs) tm] \<and>
               length old = length (messages (storage st))))"
proof -
  from generateMessage_exhausted [OF assms, of leaf] obtain tm st3 where
    g: "generateMessage st c leaf env =
          persistPending st3 c leaf
            ((newPendingMsg (genNow env + 1) c leaf)
               \<lparr>content := acc_content None (stream_text cs), timings := tm\<rparr>) (genNow env + 1)"
    and s: "storage st3 = storage st"
    by blast
  let ?node = "assistantNode (genNow env + 1) c leaf (stream_text cs) tm"
  have empty: "stream_text cs = [] \<longrightarrow> storage (snd (generateMessage st c leaf env)) = storage st"
    by (simp add: g persistPending_storage s acc_content_None)
  have full: "stream_text cs \<noteq> [] \<longrightarrow>
      storage (snd (generateMessage st c leaf env)) = storage_after_append (storage st) ?node leaf"
    by (simp add: g persistPending_storage s acc_content_None asMessage_pending)
  have last: "stream_text cs \<noteq> [] \<and> has_node (storage st) c leaf \<longrightarrow>
      (\<exists>old. messages (storage (snd (generateMessage st c leaf env))) = old @ [?node] \<and>
             length old = length (messages (storage st)))"
  proof
    assume a: "stream_text cs \<noteq> [] \<and> has_node (storage st) c leaf"
    have "getOneConversation (storage st) (convId ?node) = Some conv"
      using assms(2) by (simp add: assistantNode_fields)
    moreover have "has_node (storage st) (convId ?node) leaf"
      using a by (simp add: assistantNode_fields)
    ultimately obtain s1 old where
      "appendMsg (storage st) ?node leaf = Inr s1" "messages s1 = old @ [?node\<lparr>parent := leaf\<rparr>]"
      "length old = length (messages (storage st))"
      using appendMsg_ok by blast
    moreover have "?node\<lparr>parent := leaf\<rparr> = ?node"
      by (simp add: assistantNode_def asMessage_def newPendingMsg_def)
    ultimately show "\<exists>old. messages (storage (snd (generateMessage st c leaf env))) = old @ [?node] \<and>
             length old = length (messages (storage st))"
      using full a by (simp add: storage_after_append_def)
  qed
  from empty full last show ?thesis by blast
qed

theorem generateMessage_persists_stream_text_witness:
  "\<not> isGenerating ex_state ''conv-1000'' \<and>
   getOneConversation (storage ex_state) ''conv-1000'' \<noteq> None \<and>
   hello_stream = map Yield [text_chunk ''Hel'', text_chunk ''lo''] \<and>
   well_formed (text_chunk ''Hel'') \<and> well_formed (text_chunk ''lo'') \<and>
   has_node (storage ex_state) ''conv-1000'' 1001 \<and>
   map content (messages (storage (snd (generateMessage ex_state ''conv-1000'' 1001
      (ex_gen 1001 (Response 200 None hello_stream)))))) = [[], ''hello'', ''Hello'']"
proof -
  let ?env = "ex_gen 1001 (Response 200 None hello_stream)"
  let ?cs = "[text_chunk ''Hel'', text_chunk ''lo'']"
  have h1: "\<not> isGenerating ex_state ''conv-1000''"
    and h2: "getOneConversation (storage ex_state) ''conv-1000'' =
      Some \<lparr>id_conv = ''conv-1000'', lastModified = 1001, currNode = 1001, name = ''hello''\<rparr>"
    using ex_state_conv by simp_all
  have h3: "reply ?env = Response 200 None (map Yield ?cs)"
    by (simp add: ex_gen_def hello_stream_def)
  have h4: "\<forall>ch \<in> set ?cs. well_formed ch"
    by (simp add: well_formed_def text_chunk_def)
  have t: "stream_text ?cs = ''Hello''"
    by (simp add: stream_text_def delta_content_def text_chunk_def)
  have n: "has_node (storage ex_state) ''conv-1000'' 1001"
    unfolding ex_state_eval by (simp add: has_node_def)
  from generateMessage_persists_stream_text [OF h1 h2 h3 h4, of 1001] t n
  obtain tm where
    sa: "storage (snd (generateMessage ex_state ''conv-1000'' 1001 ?env)) =
       storage_after_append (storage ex_state)
         (assistantNode (genNow ?env + 1) ''conv-1000'' 1001 ''Hello'' tm) 1001"
    by auto
  have "map content (messages (storage_after_append (storage ex_state)
         (assistantNode (genNow ?env + 1) ''conv-1000'' 1001 ''Hello'' tm) 1001)) =
        [[], ''hello'', ''Hello'']"
    unfolding ex_state_eval by (simp add: storage_after_append_def assistantNode_def gen_defs ex_defs)
  with sa h1 h2 h3 h4 n show ?thesis
    by (simp add: hello_stream_def)
qed

subsection \<open>What any run of generateMessage leaves behind\<close>

lemma same_node_refl: "same_node pm pm"
proof -
  have "pm = pm\<lparr>content := content pm, timings := timings pm\<rparr>" by simp
  then show ?thesis unfolding same_node_def by blast
qed

lemma same_node_trans:
  assumes "same_node a b" and "same_node b c"
  shows "same_node a c"
proof -
  from assms(1) obtain x tm where a: "a = b\<lparr>content := x, timings := tm\<rparr>"
    unfolding same_node_def by blast
  from assms(2) obtain y tn where b: "b = c\<lparr>content := y, timings := tn\<rparr>"
    unfolding same_node_def by blast
  have "a = c\<lparr>content := x, timings := tm\<rparr>"
    by (simp add: a b)
  then show ?thesis unfolding same_node_def by blast
qed

lemma same_nodeI:
  fixes a b :: PendingMessage
  assumes "id_msg a = id_msg b" "convId a = convId b" "type a = type b"
    "timestamp a = timestamp b" "role a = role b" "extra a = extra b"
    "parent a = parent b" "children a = children b"
  shows "same_node a b"
proof -
  have "a = b\<lparr>content := content a, timings := timings a\<rparr>"
    using assms by (intro MessageOf.equality) simp_all
  then show ?thesis unfolding same_node_def by blast
qed

lemma applyChunk_shape:
  assumes "applyChunk sh chunk pm = Inr pm1"
  shows "same_node pm1 pm"
proof (rule same_nodeI)
  show "id_msg pm1 = id_msg pm" "convId pm1 = convId pm" "type pm1 = type pm"
    "timestamp pm1 = timestamp pm" "role pm1 = role pm" "extra pm1 = extra pm"
    "parent pm1 = parent pm" "children pm1 = children pm"
    using assms unfolding applyChunk_def Let_def
    by (auto split: option.splits list.splits if_splits)
qed

lemma run_keeps_refl: "run_keeps pm st (r, pm, st)"
  by (simp add: run_keeps_def same_node_refl)

lemma run_keeps_step:
  assumes "run_keeps pm1 st1 res" and "same_node pm1 pm" and "storage st1 = storage st"
    and "alerts st1 = alerts st" and "navigations st1 = navigations st"
    and "prefix (onChunkCalls st) (onChunkCalls st1)"
  shows "run_keeps pm st res"
proof -
  obtain r pm2 st2 where res: "res = (r, pm2, st2)" by (cases res)
  from assms(1) have k: "same_node pm2 pm1" "storage st2 = storage st1" "alerts st2 = alerts st1"
    "navigations st2 = navigations st1" "prefix (onChunkCalls st1) (onChunkCalls st2)"
    by (simp_all add: run_keeps_def res)
  have "same_node pm2 pm" using k(1) assms(2) by (rule same_node_trans)
  moreover have "prefix (onChunkCalls st) (onChunkCalls st2)"
    using assms(6) k(5) by (rule prefix_order.order_trans)
  ultimately show ?thesis
    using k assms by (simp add: run_keeps_def res)
qed

lemma run_keeps_stop:
  assumes "run_keeps pm (stopGenerating st c) res"
  shows "run_keeps pm st res"
  using assms same_node_refl
proof (rule run_keeps_step)
  show "storage (stopGenerating st c) = storage st" "alerts (stopGenerating st c) = alerts st"
    "navigations (stopGenerating st c) = navigations st"
    "prefix (onChunkCalls st) (onChunkCalls (stopGenerating st c))"
    using stopGenerating_effects [of st c] by simp_all
qed

lemma consume_keeps: "run_keeps pm st (consume sh c ps pm st)"
proof (induction sh c ps pm st rule: consume.induct)
  case (1 sh c pm st)
  show ?case by (simp add: run_keeps_refl)
next
  case (2 sh c e rest pm st)
  show ?case by (simp add: run_keeps_refl)
next
  case (3 sh c rest pm st)
  show ?case
  proof (cases "aborts (stopGenerating st c) c = Some True")
    case True
    have "run_keeps pm (stopGenerating st c) (Some AbortError, pm, stopGenerating st c)"
      by (rule run_keeps_refl)
    then have "run_keeps pm st (Some AbortError, pm, stopGenerating st c)"
      by (rule run_keeps_stop)
    with True show ?thesis by (simp add: Let_def)
  next
    case False
    from 3 [OF refl False]
    have "run_keeps pm st (consume sh c rest pm (stopGenerating st c))"
      by (rule run_keeps_stop)
    with False show ?thesis by (simp add: Let_def)
  qed
next
  case (4 sh c chunk rest pm st)
  show ?case
  proof (cases "applyChunk sh chunk pm")
    case (Inl e)
    then show ?thesis by (simp add: run_keeps_refl)
  next
    case (Inr pm1)
    let ?st1 = "onChunk (setPending st c (Some pm1)) None"
    have "run_keeps pm st (consume sh c rest pm1 ?st1)"
      using 4 [OF Inr] applyChunk_shape [OF Inr]
    proof (rule run_keeps_step)
      show "storage ?st1 = storage st" "alerts ?st1 = alerts st" "navigations ?st1 = navigations st"
        "prefix (onChunkCalls st) (onChunkCalls ?st1)"
        by (simp_all add: onChunk_def setPending_def)
    qed
    with Inr show ?thesis by simp
  qed
qed

lemma runRequest_keeps: "run_keeps pm st (runRequest sh c rep pm st)"
proof (induction rep arbitrary: st)
  case (RequestThrows e)
  show ?case by (simp add: run_keeps_refl)
next
  case (RequestStopped rep)
  show ?case
  proof (cases "aborts (stopGenerating st c) c = Some True")
    case True
    have "run_keeps pm (stopGenerating st c) (Some AbortError, pm, stopGenerating st c)"
      by (rule run_keeps_refl)
    then have "run_keeps pm st (Some AbortError, pm, stopGenerating st c)"
      by (rule run_keeps_stop)
    with True show ?thesis by (simp add: Let_def)
  next
    case False
    from RequestStopped [of "stopGenerating st c"]
    have "run_keeps pm st (runRequest sh c rep pm (stopGenerating st c))"
      by (rule run_keeps_stop)
    with False show ?thesis by (simp add: Let_def)
  qed
next
  case (Response status body chunks)
  show ?case
    by (cases "status = 200") (simp_all add: consume_keeps run_keeps_refl)
qed

lemma runRequest_shape:
  "\<exists>r x tm st1. runRequest sh c rep pm st = (r, pm\<lparr>content := x, timings := tm\<rparr>, st1) \<and>
     storage st1 = storage st \<and> alerts st1 = alerts st \<and> navigations st1 = navigations st \<and>
     prefix (onChunkCalls st) (onChunkCalls st1)"
proof -
  obtain r pm1 st1 where res: "runRequest sh c rep pm st = (r, pm1, st1)"
    by (cases "runRequest sh c rep pm st")
  from runRequest_keeps [of pm st sh c rep] have k: "same_node pm1 pm" "storage st1 = storage st"
    "alerts st1 = alerts st" "navigations st1 = navigations st"
    "prefix (onChunkCalls st) (onChunkCalls st1)"
    by (simp_all add: run_keeps_def res)
  from k(1) obtain x tm where "pm1 = pm\<lparr>content := x, timings := tm\<rparr>"
    unfolding same_node_def by blast
  with res k show ?thesis by blast
qed

text \<open>
  Every run ends in one of three ways: at once (already generating, or no conversation),
  with an error after the request, or in the persist step.
\<close>

lemma generateMessage_cases:
  "generateMessage st c leaf env = (Inr (), st) \<or>
   (\<exists>e. generateMessage st c leaf env = (Inl e, st)) \<or>
   (\<exists>e st1. generateMessage st c leaf env = (Inl e, st1) \<and> storage st1 = storage st \<and>
       prefix (alerts st) (alerts st1) \<and> navigations st1 = navigations st \<and>
       prefix (onChunkCalls st) (onChunkCalls st1)) \<or>
   (\<exists>x tm st1. generateMessage st c leaf env =
       persistPending st1 c leaf ((newPendingMsg (genNow env + 1) c leaf)\<lparr>content := x, timings := tm\<rparr>)
         (genNow env + 1) \<and>
       storage st1 = storage st \<and> alerts st1 = alerts st \<and> navigations st1 = navigations st \<and>
       prefix (onChunkCalls st) (onChunkCalls st1))"
proof (cases "isGenerating st c")
  case True
  then show ?thesis by (simp add: generateMessage_def)
next
  case False
  show ?thesis
  proof (cases "getOneConversation (storage st) c")
    case None
    with False show ?thesis by (simp add: generateMessage_def)
  next
    case (Some conv)
    let ?pm = "newPendingMsg (genNow env + 1) c leaf"
    let ?st2 = "setPending (setAbort st c (Some False)) c (Some ?pm)"
    from runRequest_shape [of "showTokensPerSecond env" c "reply env" ?pm ?st2]
    obtain r x tm st3 where
      rr: "runRequest (showTokensPerSecond env) c (reply env) ?pm ?st2 =
            (r, ?pm\<lparr>content := x, timings := tm\<rparr>, st3)"
      and s: "storage st3 = storage ?st2" "alerts st3 = alerts ?st2" "navigations st3 = navigations ?st2"
        "prefix (onChunkCalls ?st2) (onChunkCalls st3)"
      by blast
    have s2: "storage st3 = storage st" "alerts st3 = alerts st" "navigations st3 = navigations st"
      "prefix (onChunkCalls st) (onChunkCalls st3)"
      using s by (simp_all add: setPending_def setAbort_def)
    let ?st4 = "setPending st3 c None"
    have s4: "storage ?st4 = storage st" "alerts ?st4 = alerts st" "navigations ?st4 = navigations st"
      "prefix (onChunkCalls st) (onChunkCalls ?st4)"
      using s2 by (simp_all add: setPending_def)
    show ?thesis
    proof (cases r)
      case None
      with rr have "generateMessage st c leaf env =
          persistPending st3 c leaf (?pm\<lparr>content := x, timings := tm\<rparr>) (genNow env + 1)"
        by (simp add: generateMessage_start [OF False Some])
      with s2 show ?thesis by blast
    next
      case (Some err)
      show ?thesis
      proof (cases "exn_name err = ''AbortError''")
        case True
        with rr Some have "generateMessage st c leaf env =
            persistPending ?st4 c leaf (?pm\<lparr>content := x, timings := tm\<rparr>) (genNow env + 1)"
          by (simp add: generateMessage_start [OF False \<open>getOneConversation (storage st) c = Some conv\<close>])
        with s4 show ?thesis by blast
      next
        case False
        with rr Some have "generateMessage st c leaf env = (Inl err, alert ?st4 (exn_message err))"
          by (simp add: generateMessage_start [OF \<open>\<not> isGenerating st c\<close>
                \<open>getOneConversation (storage st) c = Some conv\<close>])
        moreover have "storage (alert ?st4 (exn_message err)) = storage st"
          "prefix (alerts st) (alerts (alert ?st4 (exn_message err)))"
          "navigations (alert ?st4 (exn_message err)) = navigations st"
          "prefix (onChunkCalls st) (onChunkCalls (alert ?st4 (exn_message err)))"
          using s4 by (simp_all add: alert_def)
        ultimately show ?thesis by blast
      qed
    qed
  qed
qed

lemma generateMessage_log:
  "prefix (onChunkCalls st) (onChunkCalls (snd (generateMessage st c leaf env))) \<and>
   prefix (alerts st) (alerts (snd (generateMessage st c leaf env))) \<and>
   navigations (snd (generateMessage st c leaf env)) = navigations st"
proof -
  have tr: "\<And>st1 pm pid. prefix (onChunkCalls st) (onChunkCalls st1) \<Longrightarrow>
      prefix (onChunkCalls st) (onChunkCalls (snd (persistPending st1 c leaf pm pid)))"
    using persistPending_effects prefix_order.order_trans by blast
  from generateMessage_cases [of st c leaf env] show ?thesis
    by (elim disjE exE conjE) (auto simp: persistPending_effects intro: tr)
qed

lemma generateMessage_storage:
  "storage (snd (generateMessage st c leaf env)) = storage st \<or>
   (\<exists>txt tm. storage (snd (generateMessage st c leaf env)) =
      storage_after_append (storage st) (assistantNode (genNow env + 1) c leaf txt tm) leaf)"
proof -
  from generateMessage_cases [of st c leaf env] show ?thesis
  proof (elim disjE exE conjE)
    fix x tm st1
    assume g: "generateMessage st c leaf env =
       persistPending st1 c leaf ((newPendingMsg (genNow env + 1) c leaf)\<lparr>content := x, timings := tm\<rparr>)
         (genNow env + 1)" and s: "storage st1 = storage st"
    show ?thesis
      by (cases x) (auto simp: g s persistPending_storage asMessage_pending)
  qed auto
qed

subsection \<open>More on the store\<close>

lemma find_map_same:
  assumes "\<And>x. P (f x) = P x"
  shows "find P (map f xs) = map_option f (find P xs)"
  using assms by (induction xs) simp_all

lemma filter_map_same:
  assumes "\<And>x. P (f x) = P x"
  shows "filter P (map f xs) = map f (filter P xs)"
  using assms by (induction xs) simp_all

lemma find_append_some: "find P (xs @ ys) = (case find P xs of None \<Rightarrow> find P ys | Some x \<Rightarrow> Some x)"
  by (induction xs) simp_all

lemma appendMsg_Inr:
  assumes "appendMsg s m p = Inr s1"
  shows "conversations s1 =
           map (\<lambda>c. if id_conv c = convId m
                     then c\<lparr>currNode := id_msg m, lastModified := timestamp m\<rparr> else c)
             (conversations s)"
    and "messages s1 =
           map (\<lambda>q. if convId q = convId m \<and> id_msg q = p
                     then q\<lparr>children := children q @ [id_msg m]\<rparr> else q) (messages s)
           @ [m\<lparr>parent := p\<rparr>]"
    and "getOneConversation s (convId m) \<noteq> None" and "has_node s (convId m) p"
  using assms by (auto simp: appendMsg_def has_node_def split: option.splits if_splits)

lemma appendMsg_names:
  assumes "appendMsg s m p = Inr s1"
  shows "map name (conversations s1) = map name (conversations s)"
  unfolding appendMsg_Inr(1) [OF assms] by (simp add: comp_def if_distrib cong: if_cong)

lemma has_node_filter: "has_node s c i \<longleftrightarrow> i \<in> set (map id_msg (getMessages s c))"
  by (auto simp: has_node_def getMessages_def list_ex_iff)

lemma appendMsg_ids:
  assumes "appendMsg s m p = Inr s1"
  shows "map id_msg (getMessages s1 c) =
           map id_msg (getMessages s c) @ (if convId m = c then [id_msg m] else [])"
proof -
  let ?f = "\<lambda>q. if convId q = convId m \<and> id_msg q = p
                 then q\<lparr>children := children q @ [id_msg m]\<rparr> else q"
  have "filter (\<lambda>q. convId q = c) (map ?f (messages s)) = map ?f (filter (\<lambda>q. convId q = c) (messages s))"
    by (rule filter_map_same) simp
  moreover have "map id_msg (map ?f (filter (\<lambda>q. convId q = c) (messages s))) =
      map id_msg (filter (\<lambda>q. convId q = c) (messages s))"
    by simp
  ultimately show ?thesis
    unfolding getMessages_def appendMsg_Inr(2) [OF assms] by simp
qed

lemma appendMsg_keeps_conversation:
  assumes "appendMsg s m p = Inr s1" and "getOneConversation s c \<noteq> None"
  shows "getOneConversation s1 c \<noteq> None"
proof -
  let ?f = "\<lambda>c. if id_conv c = convId m
                 then c\<lparr>currNode := id_msg m, lastModified := timestamp m\<rparr> else c"
  have "find (\<lambda>conv. id_conv conv = c) (map ?f (conversations s)) =
        map_option ?f (find (\<lambda>conv. id_conv conv = c) (conversations s))"
    by (rule find_map_same) simp
  with assms(2) show ?thesis
    unfolding getOneConversation_def appendMsg_Inr(1) [OF assms(1)] by simp
qed

lemma appendMsg_has_node:
  assumes "appendMsg s m p = Inr s1"
  shows "has_node s1 (convId m) (id_msg m)"
  unfolding has_node_filter appendMsg_ids [OF assms] by simp

lemma appendMsg_succeeds:
  assumes "getOneConversation s (convId m) \<noteq> None" and "has_node s (convId m) p"
  shows "\<exists>s1. appendMsg s m p = Inr s1"
  using assms by (auto simp: appendMsg_def has_node_def)

lemma storage_after_append_names:
  "map name (conversations (storage_after_append s m p)) = map name (conversations s)"
  by (auto simp: storage_after_append_def appendMsg_names split: sum.splits)


lemma createConversation_effects:
  assumes "createConversation s title now = (conv, s1)"
  shows "id_conv conv = ''conv-'' @ show_int now" and "currNode conv = now"
    and "map name (conversations s1) = map name (conversations s) @ [title]"
    and "map id_msg (getMessages s1 c) =
           map id_msg (getMessages s c) @ (if c = id_conv conv then [now] else [])"
    and "getOneConversation s1 (id_conv conv) \<noteq> None"
    and "has_node s1 (id_conv conv) now"
  using assms
  by (auto simp: createConversation_def Let_def getMessages_def getOneConversation_def
        has_node_def find_append_some split: option.splits)

subsection \<open>The steps of sendMessage\<close>

lemma trim_empty_iff: "trim s = [] \<longleftrightarrow> (\<forall>ch \<in> set s. is_space ch)"
proof -
  have "trim s = [] \<longleftrightarrow> (\<forall>ch \<in> set (dropWhile is_space s). is_space ch)"
    by (simp add: trim_def dropWhile_eq_Nil_conv)
  also have "\<dots> \<longleftrightarrow> dropWhile is_space s = []"
  proof
    assume a: "\<forall>ch \<in> set (dropWhile is_space s). is_space ch"
    show "dropWhile is_space s = []"
    proof (rule ccontr)
      assume n: "dropWhile is_space s \<noteq> []"
      then have "\<not> is_space (hd (dropWhile is_space s))" by (rule hd_dropWhile)
      moreover have "hd (dropWhile is_space s) \<in> set (dropWhile is_space s)"
        using n by simp
      ultimately show False using a by blast
    qed
  next
    assume e: "dropWhile is_space s = []"
    show "\<forall>ch \<in> set (dropWhile is_space s). is_space ch"
      unfolding e by simp
  qed
  also have "\<dots> \<longleftrightarrow> (\<forall>ch \<in> set s. is_space ch)"
    by (simp add: dropWhile_eq_Nil_conv)
  finally show ?thesis .
qed

lemma registered_prefix_not_blank:
  assumes "p \<in> set registered_prefixes" and "prefix p content_in"
  shows "trim content_in \<noteq> []"
proof -
  from assms(1) have "CHR ''/'' \<in> set p"
    by (auto simp: registered_prefixes_def)
  with assms(2) have "CHR ''/'' \<in> set content_in"
    by (auto simp: prefix_def)
  moreover have "\<not> is_space CHR ''/''"
    by (simp add: is_space_def)
  ultimately show ?thesis
    unfolding trim_empty_iff by blast
qed

lemma interceptCommand_effects:
  "\<exists>content1 st1. interceptCommand r st content_in = (content1, st1) \<and>
     storage st1 = storage st \<and> pendingMessages st1 = pendingMessages st \<and>
     onChunkCalls st1 = onChunkCalls st \<and> navigations st1 = navigations st \<and>
     prefix (alerts st) (alerts st1)"
  by (cases r)
     (simp_all add: interceptCommand_def keep_or_def fetchRAGCodebase_def fetchRAGProducts_def
        fetchRAGDocumentation_def fetchRAGMedRecords_def alert_def)


lemma startConversation_effects:
  assumes "startConversation st content_in now = (c, l, st1)"
  shows "\<exists>conv. createConversation (storage st) (take 256 content_in) now = (conv, storage st1) \<and>
           c = id_conv conv \<and> l = currNode conv \<and> alerts st1 = alerts st \<and>
           onChunkCalls st1 = onChunkCalls st \<and> pendingMessages st1 = pendingMessages st"
  using assms by (auto simp: startConversation_def navigate_def split: prod.splits)

lemma resolveConversation_cases:
  "(\<exists>c l. convId_in = Some c \<and> c \<noteq> [] \<and> leafNodeId = Some l \<and>
          resolveConversation st convId_in leafNodeId content_in now = (c, l, st)) \<or>
   ((convId_in = None \<or> convId_in = Some [] \<or> leafNodeId = None) \<and>
    resolveConversation st convId_in leafNodeId content_in now =
      startConversation st content_in now)"
  by (auto simp: resolveConversation_def split: option.splits)

lemma resolveConversation_log:
  assumes "resolveConversation st convId_in leafNodeId content_in now = (c, l, st1)"
  shows "alerts st1 = alerts st \<and> onChunkCalls st1 = onChunkCalls st \<and>
         pendingMessages st1 = pendingMessages st"
  using resolveConversation_cases [of convId_in leafNodeId st content_in now] assms
    startConversation_effects [of st content_in now c l st1]
  by auto

lemma appendMsg_unawaited_log:
  "alerts (appendMsg_unawaited st m p) = alerts st \<and>
   onChunkCalls (appendMsg_unawaited st m p) = onChunkCalls st \<and>
   pendingMessages (appendMsg_unawaited st m p) = pendingMessages st \<and>
   storage (appendMsg_unawaited st m p) = storage_after_append (storage st) m p"
  by (simp add: appendMsg_unawaited_def storage_after_append_def split: sum.splits)

text \<open>The state in which sendMessage calls generateMessage, and the result it makes of it.\<close>

lemma createAppendGenerate_unfold:
  assumes "resolveConversation st convId_in leafNodeId content_in (convNow env) = (c, l, st1)"
  shows "createAppendGenerate st convId_in leafNodeId content_in extra_in env =
     (case generateMessage
             (onChunk (appendMsg_unawaited st1 (userNode (userNow env) c content_in extra_in l) l)
                (Some (userNow env))) c (userNow env) (gen env) of
        (Inr u, st4) \<Rightarrow> (True, st4)
      | (Inl e, st4) \<Rightarrow> (False, st4))"
  using assms by (simp add: createAppendGenerate_def Let_def)

lemma createAppendGenerate_snd:
  assumes "resolveConversation st convId_in leafNodeId content_in (convNow env) = (c, l, st1)"
  shows "snd (createAppendGenerate st convId_in leafNodeId content_in extra_in env) =
     snd (generateMessage
             (onChunk (appendMsg_unawaited st1 (userNode (userNow env) c content_in extra_in l) l)
                (Some (userNow env))) c (userNow env) (gen env))"
  unfolding createAppendGenerate_unfold [OF assms]
  by (simp split: prod.splits sum.splits)

lemma createAppendGenerate_log:
  "prefix (onChunkCalls st @ [Some (userNow env)])
     (onChunkCalls (snd (createAppendGenerate st convId_in leafNodeId content_in extra_in env))) \<and>
   prefix (alerts st)
     (alerts (snd (createAppendGenerate st convId_in leafNodeId content_in extra_in env)))"
proof -
  obtain c l st1 where r: "resolveConversation st convId_in leafNodeId content_in (convNow env) = (c, l, st1)"
    by (cases "resolveConversation st convId_in leafNodeId content_in (convNow env)")
  let ?st3 = "onChunk (appendMsg_unawaited st1 (userNode (userNow env) c content_in extra_in l) l)
                (Some (userNow env))"
  have "onChunkCalls ?st3 = onChunkCalls st @ [Some (userNow env)]" "alerts ?st3 = alerts st"
    using resolveConversation_log [OF r] by (simp_all add: onChunk_def appendMsg_unawaited_log)
  with generateMessage_log [of ?st3 c "userNow env" "gen env"] show ?thesis
    unfolding createAppendGenerate_snd [OF r] by simp
qed

subsection \<open>Claims about the guard and the rewrite step\<close>




subsection \<open>The rewritten content and the name of a new conversation\<close>

lemma getSubstitution_char:
  "CHR ''$'' \<noteq> c \<Longrightarrow> getSubstitution m b a (c # r) = c # getSubstitution m b a r"
  by (cases r) simp_all

lemma getSubstitution_plain:
  "CHR ''$'' \<notin> set xs \<Longrightarrow> getSubstitution m b a (xs @ ys) = xs @ getSubstitution m b a ys"
  by (induction xs) (simp_all add: getSubstitution_char)

lemma replace_prefix:
  assumes "prefix pat s" and "s \<noteq> []"
  shows "replace s pat repl =
           getSubstitution pat [] (drop (length pat) s) repl @ drop (length pat) s"
  using assms by (cases s) (simp_all add: replace_def)

lemma directive_facts:
  "CHR ''$'' \<notin> set directive_codebase \<and> 256 \<le> length directive_codebase \<and>
     hd directive_codebase = CHR ''Y''"
  "CHR ''$'' \<notin> set directive_products \<and> 256 \<le> length directive_products \<and>
     hd directive_products = CHR ''Y''"
  "CHR ''$'' \<notin> set directive_documentation \<and> 256 \<le> length directive_documentation \<and>
     hd directive_documentation = CHR ''Y''"
  "256 \<le> length directive_medical_records \<and> hd directive_medical_records = CHR ''Y''"
  by (simp_all add: directive_codebase_def directive_products_def directive_documentation_def
        directive_medical_records_def)

lemma directive_of_facts:
  assumes "p \<in> set registered_prefixes"
  shows "256 \<le> length (directive_of p)" and "hd (directive_of p) = CHR ''Y''"
  using assms directive_facts by (auto simp: registered_prefixes_def directive_of_def)

lemma interceptCommand_rewrites:
  assumes "p \<in> set registered_prefixes" and "prefix p content_in"
  shows "\<exists>rest. interceptCommand (RagDocuments docs) st content_in = (directive_of p @ rest, st)"
proof -
  have ne: "content_in \<noteq> []"
    using assms by (auto simp: registered_prefixes_def)
  have rp: "\<And>d more. CHR ''$'' \<notin> set d \<Longrightarrow>
      \<exists>rest. replace content_in p (d @ more) = d @ rest"
    by (simp add: replace_prefix [OF assms(2) ne] getSubstitution_plain)
  from assms(1) consider "p = ''/codebase''" | "p = ''/products''" | "p = ''/documentation''"
    | "p = ''/medical_records''"
    by (auto simp: registered_prefixes_def)
  then show ?thesis
  proof cases
    case 1
    from rp [of directive_codebase] directive_facts(1) obtain rest where
      "replace content_in p (directive_codebase @ newlines @ allDocsString docs @ newlines @ content_in)
         = directive_codebase @ rest"
      by blast
    with assms(2) 1 show ?thesis
      by (simp add: interceptCommand_def keep_or_def fetchRAGCodebase_def directive_of_def)
  next
    case 2
    from rp [of directive_products] directive_facts(2) obtain rest where
      "replace content_in p (directive_products @ newlines @ allDocsString docs @ newlines @ content_in)
         = directive_products @ rest"
      by blast
    moreover have "\<not> prefix ''/codebase'' content_in"
      using assms(2) 2 by (auto simp: prefix_def)
    ultimately show ?thesis using assms(2) 2
      by (simp add: interceptCommand_def keep_or_def fetchRAGProducts_def directive_of_def)
  next
    case 3
    from rp [of directive_documentation] directive_facts(3) obtain rest where
      "replace content_in p
         (directive_documentation @ newlines @ allDocsString docs @ newlines @ content_in)
         = directive_documentation @ rest"
      by blast
    moreover have "\<not> prefix ''/codebase'' content_in" "\<not> prefix ''/products'' content_in"
      using assms(2) 3 by (auto simp: prefix_def)
    ultimately show ?thesis using assms(2) 3
      by (simp add: interceptCommand_def keep_or_def fetchRAGDocumentation_def directive_of_def)
  next
    case 4
    have "\<not> prefix ''/codebase'' content_in" "\<not> prefix ''/products'' content_in"
      "\<not> prefix ''/documentation'' content_in"
      using assms(2) 4 by (auto simp: prefix_def)
    then show ?thesis using assms(2) 4
      by (simp add: interceptCommand_def keep_or_def fetchRAGMedRecords_def directive_of_def)
  qed
qed

lemma generateMessage_names:
  "map name (conversations (storage (snd (generateMessage st c leaf env)))) =
     map name (conversations (storage st))"
  using generateMessage_storage [of st c leaf env]
  by (auto simp: storage_after_append_names)

text \<open>
  Claim C9. When no conversation id (or no leaf) is given, the content begins with a
  registered command prefix and the rewrite succeeds, the send adds exactly one
  conversation, and its name is the first 256 characters of the rewritten content. Every
  directive is longer than that, so the name is the beginning of the directive, not of
  what the user typed.
\<close>

theorem sendMessage_names_conversation:
  assumes "p \<in> set registered_prefixes" and "prefix p content_in"
    and "rag env = RagDocuments docs"
    and "\<not> isGenerating st (case convId_in of None \<Rightarrow> [] | Some c \<Rightarrow> c)"
    and "convId_in = None \<or> convId_in = Some [] \<or> leafNodeId = None"
  shows "map name (conversations (storage (snd (sendMessage st convId_in leafNodeId content_in
             extra_in env)))) =
           map name (conversations (storage st)) @
             [take 256 (fst (interceptCommand (rag env) st content_in))] \<and>
         take 256 (fst (interceptCommand (rag env) st content_in)) = take 256 (directive_of p) \<and>
         take 256 (directive_of p) \<noteq> take 256 content_in"
proof -
  from interceptCommand_rewrites [OF assms(1,2), of docs st] obtain rest where
    i: "interceptCommand (rag env) st content_in = (directive_of p @ rest, st)"
    unfolding assms(3) by blast
  let ?content1 = "directive_of p @ rest"
  have t: "trim content_in \<noteq> []"
    using assms(1,2) by (rule registered_prefix_not_blank)
  have s: "sendMessage st convId_in leafNodeId content_in extra_in env =
      createAppendGenerate st convId_in leafNodeId ?content1 extra_in env"
    using t assms(4) by (simp add: sendMessage_def i)
  obtain c l st1 where r: "resolveConversation st convId_in leafNodeId ?content1 (convNow env) = (c, l, st1)"
    by (cases "resolveConversation st convId_in leafNodeId ?content1 (convNow env)")
  with resolveConversation_cases [of convId_in leafNodeId st ?content1 "convNow env"] assms(5)
  have "startConversation st ?content1 (convNow env) = (c, l, st1)"
    by auto
  from startConversation_effects [OF this] obtain conv where
    "createConversation (storage st) (take 256 ?content1) (convNow env) = (conv, storage st1)"
    by blast
  then have n1: "map name (conversations (storage st1)) =
      map name (conversations (storage st)) @ [take 256 ?content1]"
    by (rule createConversation_effects(3))
  have "map name (conversations (storage (snd (sendMessage st convId_in leafNodeId content_in
             extra_in env)))) = map name (conversations (storage st1))"
    unfolding s createAppendGenerate_snd [OF r] generateMessage_names
    by (simp add: onChunk_def appendMsg_unawaited_log storage_after_append_names)
  with n1 have names: "map name (conversations (storage (snd (sendMessage st convId_in leafNodeId
      content_in extra_in env)))) =
      map name (conversations (storage st)) @ [take 256 (fst (interceptCommand (rag env) st content_in))]"
    by (simp add: i)
  have d: "take 256 (fst (interceptCommand (rag env) st content_in)) = take 256 (directive_of p)"
    using directive_of_facts(1) [OF assms(1)] by (simp add: i)
  have "directive_of p \<noteq> []"
    using directive_of_facts(1) [OF assms(1)] by auto
  then have hd1: "hd (take 256 (directive_of p)) = CHR ''Y''"
    using directive_of_facts(2) [OF assms(1)] by (simp add: hd_take)
  have hd2: "hd (take 256 content_in) = CHR ''/''"
    using assms(1,2) by (auto simp: registered_prefixes_def prefix_def)
  have "take 256 (directive_of p) \<noteq> take 256 content_in"
  proof
    assume "take 256 (directive_of p) = take 256 content_in"
    then have "hd (take 256 (directive_of p)) = hd (take 256 content_in)"
      by (rule arg_cong)
    then show False unfolding hd1 hd2 by simp
  qed
  with names d show ?thesis by blast
qed

theorem sendMessage_names_conversation_witness:
  "''/products'' \<in> set registered_prefixes \<and> prefix ''/products'' ''/products shoes'' \<and>
   \<not> isGenerating empty_state [] \<and>
   map name (conversations (storage (snd (sendMessage empty_state None None ''/products shoes'' None
      (ex_send (RagDocuments [[''a'', ''b''], [''c'']]) 1000 1001 1001
         (Response 200 None hello_stream)))))) = [take 256 directive_products] \<and>
   take 256 directive_products \<noteq> take 256 ''/products shoes''"
proof -
  let ?env = "ex_send (RagDocuments [[''a'', ''b''], [''c'']]) 1000 1001 1001
         (Response 200 None hello_stream)"
  have h1: "''/products'' \<in> set registered_prefixes"
    by (simp add: registered_prefixes_def)
  have h2: "prefix ''/products'' ''/products shoes''"
    by simp
  have h3: "rag ?env = RagDocuments [[''a'', ''b''], [''c'']]"
    by (simp add: ex_send_def)
  have h4: "\<not> isGenerating empty_state (case None of None \<Rightarrow> [] | Some c \<Rightarrow> c)"
    by (simp add: isGenerating_def empty_state_def)
  have h5: "None = None \<or> None = Some [] \<or> (None :: int option) = None"
    by simp
  have d: "directive_of ''/products'' = directive_products"
    by (simp add: directive_of_def)
  have e: "conversations (storage empty_state) = []"
    by (simp add: empty_state_def)
  note th = sendMessage_names_conversation [OF h1 h2 h3 h4 h5, of None]
  from th have "map name (conversations (storage (snd (sendMessage empty_state None None
      ''/products shoes'' None ?env)))) = [take 256 directive_products]"
    unfolding d e by simp
  moreover from th have "take 256 directive_products \<noteq> take 256 ''/products shoes''"
    unfolding d by (elim conjE)
  ultimately show ?thesis using h1 h2 h4 by simp
qed

subsection \<open>Cancellation seen from sendMessage\<close>

lemma generateMessage_cancelled_ok:
  assumes "getOneConversation (storage st) c \<noteq> None"
    and "reply env = RequestStopped r \<and> cs = [] \<or>
         reply env = Response 200 body (map Yield cs @ UserStop # rest)"
    and "\<forall>ch \<in> set cs. well_formed ch"
    and "has_node (storage st) c leaf \<or> stream_text cs = []"
  shows "fst (generateMessage st c leaf env) = Inr ()"
proof (cases "isGenerating st c")
  case True
  then show ?thesis by (simp add: generateMessage_def)
next
  case False
  from assms(1) obtain conv where conv: "getOneConversation (storage st) c = Some conv" by blast
  have "\<exists>tm st4. generateMessage st c leaf env =
           persistPending st4 c leaf
             ((newPendingMsg (genNow env + 1) c leaf)
                \<lparr>content := acc_content None (stream_text cs), timings := tm\<rparr>) (genNow env + 1) \<and>
         storage st4 = storage st"
  proof (cases "reply env = RequestStopped r \<and> cs = []")
    case True
    from generateMessage_stopped_request [OF False conv, of env r leaf] True obtain st4 where
      "generateMessage st c leaf env =
         persistPending st4 c leaf (newPendingMsg (genNow env + 1) c leaf) (genNow env + 1)"
      "storage st4 = storage st"
      by blast
    moreover have "newPendingMsg (genNow env + 1) c leaf =
      (newPendingMsg (genNow env + 1) c leaf)\<lparr>content := acc_content None (stream_text cs), timings := None\<rparr>"
      using True by (simp add: newPendingMsg_def acc_content_def stream_text_def)
    ultimately show ?thesis by metis
  next
    case False
    with assms(2) have "reply env = Response 200 body (map Yield cs @ UserStop # rest)" by blast
    from generateMessage_stopped [OF \<open>\<not> isGenerating st c\<close> conv this assms(3), of leaf]
    show ?thesis by blast
  qed
  then obtain tm st4 where
    g: "generateMessage st c leaf env =
          persistPending st4 c leaf
            ((newPendingMsg (genNow env + 1) c leaf)
               \<lparr>content := acc_content None (stream_text cs), timings := tm\<rparr>) (genNow env + 1)"
    and s: "storage st4 = storage st"
    by blast
  show ?thesis
  proof (cases "stream_text cs = []")
    case True
    then show ?thesis by (simp add: g persistPending_ok acc_content_None)
  next
    case False
    with assms(4) have n: "has_node (storage st) c leaf" by blast
    let ?node = "assistantNode (genNow env + 1) c leaf (stream_text cs) tm"
    have "getOneConversation (storage st) (convId ?node) \<noteq> None" "has_node (storage st) (convId ?node) leaf"
      using conv n by (simp_all add: assistantNode_fields)
    then have "\<exists>s1. appendMsg (storage st) ?node leaf = Inr s1"
      by (rule appendMsg_succeeds)
    with False show ?thesis
      by (simp add: g s persistPending_ok acc_content_None asMessage_pending)
  qed
qed

lemma storage_after_append_keeps_conversation:
  "getOneConversation s c \<noteq> None \<Longrightarrow> getOneConversation (storage_after_append s m p) c \<noteq> None"
  by (cases "appendMsg s m p")
     (simp_all add: storage_after_append_def appendMsg_keeps_conversation)

subsection \<open>Ids of the nodes a send creates\<close>








section \<open>Complete runs\<close>

subsection \<open>Views of the stored nodes\<close>

lemma appendMsg_view:
  assumes "appendMsg s m p = Inr s1"
  shows "map node_view (getMessages s1 c) =
           map node_view (getMessages s c) @ (if convId m = c then [node_view (m\<lparr>parent := p\<rparr>)] else [])"
proof -
  let ?f = "\<lambda>q. if convId q = convId m \<and> id_msg q = p
                 then q\<lparr>children := children q @ [id_msg m]\<rparr> else q"
  have "filter (\<lambda>q. convId q = c) (map ?f (messages s)) = map ?f (filter (\<lambda>q. convId q = c) (messages s))"
    by (rule filter_map_same) simp
  moreover have "map node_view (map ?f (filter (\<lambda>q. convId q = c) (messages s))) =
      map node_view (filter (\<lambda>q. convId q = c) (messages s))"
    by (simp add: node_view_def)
  ultimately show ?thesis
    unfolding getMessages_def appendMsg_Inr(2) [OF assms] by simp
qed

lemma storage_after_append_view:
  "\<exists>added. map node_view (getMessages (storage_after_append s m p) c) =
             map node_view (getMessages s c) @ added"
proof (cases "appendMsg s m p")
  case (Inl e)
  then show ?thesis by (simp add: storage_after_append_def)
next
  case (Inr s1)
  from appendMsg_view [OF Inr, of c] Inr show ?thesis
    by (simp add: storage_after_append_def)
qed

lemma createConversation_view:
  assumes "createConversation s title now = (conv, s1)"
  shows "map node_view (getMessages s1 c) =
           map node_view (getMessages s c) @ (if c = id_conv conv then [(now, System, [], - 1)] else [])"
  using assms
  by (auto simp: createConversation_def Let_def getMessages_def node_view_def)

lemma generateMessage_view_extends:
  "\<exists>added. conversation_view (snd (generateMessage st c leaf env)) c' = conversation_view st c' @ added"
  using generateMessage_storage [of st c leaf env] storage_after_append_view
  by (auto simp: conversation_view_def)

subsection \<open>A generation that receives its chunks\<close>

lemma delivers_cases:
  assumes "delivers rep cs"
  obtains (ended) body where "rep = Response 200 body (map Yield cs)"
  | (stopped) body rest where "rep = Response 200 body (map Yield cs @ UserStop # rest)"
  | (stopped_request) r where "rep = RequestStopped r" "cs = []"
  using assms unfolding delivers_def by blast

lemma delivers_well_formed: "delivers rep cs \<Longrightarrow> \<forall>ch \<in> set cs. well_formed ch"
  by (simp add: delivers_def list_all_iff)

lemma generateMessage_delivered:
  assumes "\<not> isGenerating st c" and "getOneConversation (storage st) c \<noteq> None"
    and "delivers (reply env) cs"
  shows "\<exists>tm st4. generateMessage st c leaf env =
           persistPending st4 c leaf
             ((newPendingMsg (genNow env + 1) c leaf)
                \<lparr>content := acc_content None (stream_text cs), timings := tm\<rparr>) (genNow env + 1) \<and>
         storage st4 = storage st \<and> alerts st4 = alerts st \<and>
         onChunkCalls st4 = onChunkCalls st @ replicate (length cs) None"
proof -
  from assms(2) obtain conv where conv: "getOneConversation (storage st) c = Some conv" by blast
  note wf = delivers_well_formed [OF assms(3)]
  let ?pm = "newPendingMsg (genNow env + 1) c leaf"
  let ?st2 = "setPending (setAbort st c (Some False)) c (Some ?pm)"
  have c0: "content ?pm = None" by (simp add: newPendingMsg_def)
  have st2: "storage ?st2 = storage st" "alerts ?st2 = alerts st" "onChunkCalls ?st2 = onChunkCalls st"
    "aborts ?st2 c = Some False"
    by (simp_all add: setPending_def setAbort_def)
  from assms(3) show ?thesis
  proof (cases rule: delivers_cases)
    case (ended body)
    from consume_well_formed [OF wf, of "showTokensPerSecond env" c "[]" ?pm ?st2]
    obtain tm st3 where
      r: "consume (showTokensPerSecond env) c (map Yield cs) ?pm ?st2 =
            (None, ?pm\<lparr>content := acc_content (content ?pm) (stream_text cs), timings := tm\<rparr>, st3)"
      and s: "storage st3 = storage ?st2" "alerts st3 = alerts ?st2"
        "onChunkCalls st3 = onChunkCalls ?st2 @ replicate (length cs) None"
      by auto
    have "generateMessage st c leaf env =
            persistPending st3 c leaf (?pm\<lparr>content := acc_content None (stream_text cs), timings := tm\<rparr>)
              (genNow env + 1)"
      using r c0 by (simp add: generateMessage_start [OF assms(1) conv] ended)
    with s st2 show ?thesis by auto
  next
    case (stopped body rest)
    from consume_well_formed [OF wf, of "showTokensPerSecond env" c "UserStop # rest" ?pm ?st2]
    obtain tm st3 where
      r: "consume (showTokensPerSecond env) c (map Yield cs @ UserStop # rest) ?pm ?st2 =
            consume (showTokensPerSecond env) c (UserStop # rest)
              (?pm\<lparr>content := acc_content (content ?pm) (stream_text cs), timings := tm\<rparr>) st3"
      and s: "storage st3 = storage ?st2" "aborts st3 = aborts ?st2" "alerts st3 = alerts ?st2"
        "onChunkCalls st3 = onChunkCalls ?st2 @ replicate (length cs) None"
      by blast
    have "aborts st3 c = Some False"
      using s(2) st2(4) by simp
    then have ab: "aborts (stopGenerating st3 c) c = Some True"
      by (rule stopGenerating_aborts)
    define st4 where "st4 = setPending (stopGenerating st3 c) c None"
    have "generateMessage st c leaf env =
            persistPending st4 c leaf (?pm\<lparr>content := acc_content None (stream_text cs), timings := tm\<rparr>)
              (genNow env + 1)"
      using r c0 ab
      by (simp add: generateMessage_start [OF assms(1) conv] stopped Let_def AbortError_def st4_def)
    moreover have "storage st4 = storage st" "alerts st4 = alerts st"
      "onChunkCalls st4 = onChunkCalls st @ replicate (length cs) None"
      using s st2 stopGenerating_effects [of st3 c]
      by (simp_all add: st4_def setPending_def)
    ultimately show ?thesis by blast
  next
    case (stopped_request r)
    have ab: "aborts (stopGenerating ?st2 c) c = Some True"
      using st2(4) by (rule stopGenerating_aborts)
    define st4 where "st4 = setPending (stopGenerating ?st2 c) c None"
    have "generateMessage st c leaf env = persistPending st4 c leaf ?pm (genNow env + 1)"
      using ab
      by (simp add: generateMessage_start [OF assms(1) conv] stopped_request Let_def AbortError_def st4_def)
    moreover have "?pm = ?pm\<lparr>content := acc_content None (stream_text cs), timings := None\<rparr>"
      using stopped_request(2) by (simp add: newPendingMsg_def acc_content_def stream_text_def)
    moreover have "storage st4 = storage st" "alerts st4 = alerts st"
      "onChunkCalls st4 = onChunkCalls st @ replicate (length cs) None"
      using st2 stopGenerating_effects [of ?st2 c] stopped_request(2)
      by (simp_all add: st4_def setPending_def)
    ultimately show ?thesis by metis
  qed
qed

lemma persistPending_done:
  assumes "fst (persistPending st c leaf pm pid) = Inr ()"
  shows "pendingMessages (snd (persistPending st c leaf pm pid)) c = None"
    and "alerts (snd (persistPending st c leaf pm pid)) = alerts st"
    and "onChunkCalls (snd (persistPending st c leaf pm pid)) = onChunkCalls st @ [Some pid]"
  using assms
  by (auto simp: persistPending_def onChunk_def setPending_def split: option.splits sum.splits)

lemma generateMessage_completes:
  assumes "\<not> isGenerating st c" and "getOneConversation (storage st) c \<noteq> None"
    and "delivers (reply env) cs"
    and "has_node (storage st) c leaf \<or> stream_text cs = []"
  shows "fst (generateMessage st c leaf env) = Inr ()"
    and "conversation_view (snd (generateMessage st c leaf env)) c =
           conversation_view st c @ assistant_view (genNow env) (stream_text cs) leaf"
    and "onChunkCalls (snd (generateMessage st c leaf env)) =
           onChunkCalls st @ replicate (length cs) None @ [Some (genNow env + 1)]"
    and "alerts (snd (generateMessage st c leaf env)) = alerts st"
    and "\<not> isGenerating (snd (generateMessage st c leaf env)) c"
proof -
  from generateMessage_delivered [OF assms(1-3), of leaf] obtain tm st4 where
    g: "generateMessage st c leaf env =
          persistPending st4 c leaf
            ((newPendingMsg (genNow env + 1) c leaf)
               \<lparr>content := acc_content None (stream_text cs), timings := tm\<rparr>) (genNow env + 1)"
    and s: "storage st4 = storage st" "alerts st4 = alerts st"
      "onChunkCalls st4 = onChunkCalls st @ replicate (length cs) None"
    by blast
  let ?node = "assistantNode (genNow env + 1) c leaf (stream_text cs) tm"
  have ok: "fst (generateMessage st c leaf env) = Inr ()"
  proof (cases "stream_text cs = []")
    case True
    then show ?thesis by (simp add: g persistPending_ok acc_content_None)
  next
    case False
    with assms(4) have "has_node (storage st) (convId ?node) leaf"
      by (simp add: assistantNode_fields)
    moreover have "getOneConversation (storage st) (convId ?node) \<noteq> None"
      using assms(2) by (simp add: assistantNode_fields)
    ultimately have "\<exists>s1. appendMsg (storage st) ?node leaf = Inr s1"
      by (intro appendMsg_succeeds)
    with False show ?thesis
      by (simp add: g s persistPending_ok acc_content_None asMessage_pending)
  qed
  then show "fst (generateMessage st c leaf env) = Inr ()" .
  from ok have ok': "fst (persistPending st4 c leaf
            ((newPendingMsg (genNow env + 1) c leaf)
               \<lparr>content := acc_content None (stream_text cs), timings := tm\<rparr>) (genNow env + 1)) = Inr ()"
    by (simp add: g)
  show "onChunkCalls (snd (generateMessage st c leaf env)) =
           onChunkCalls st @ replicate (length cs) None @ [Some (genNow env + 1)]"
    unfolding g persistPending_done(3) [OF ok'] s by simp
  show "alerts (snd (generateMessage st c leaf env)) = alerts st"
    unfolding g persistPending_done(2) [OF ok'] s by simp
  show "\<not> isGenerating (snd (generateMessage st c leaf env)) c"
    unfolding g isGenerating_def persistPending_done(1) [OF ok'] by simp
  show "conversation_view (snd (generateMessage st c leaf env)) c =
           conversation_view st c @ assistant_view (genNow env) (stream_text cs) leaf"
  proof (cases "stream_text cs = []")
    case True
    then show ?thesis
      by (simp add: conversation_view_def g persistPending_storage s acc_content_None assistant_view_def)
  next
    case False
    with assms(4) have "has_node (storage st) (convId ?node) leaf"
      by (simp add: assistantNode_fields)
    moreover have "getOneConversation (storage st) (convId ?node) \<noteq> None"
      using assms(2) by (simp add: assistantNode_fields)
    ultimately obtain s1 where ap: "appendMsg (storage st) ?node leaf = Inr s1"
      using appendMsg_succeeds by blast
    have "storage (snd (generateMessage st c leaf env)) = s1"
      using False ap
      by (simp add: g persistPending_storage s acc_content_None asMessage_pending storage_after_append_def)
    moreover have "node_view (?node\<lparr>parent := leaf\<rparr>) = (genNow env + 1, Assistant, stream_text cs, leaf)"
      by (simp add: node_view_def assistantNode_def asMessage_def newPendingMsg_def)
    ultimately show ?thesis
      using appendMsg_view [OF ap, of c] False
      by (simp add: conversation_view_def assistant_view_def assistantNode_fields)
  qed
qed

lemma generateMessage_not_stored:
  assumes "\<not> isGenerating st c" and "getOneConversation (storage st) c \<noteq> None"
    and "delivers (reply env) cs"
    and "\<not> has_node (storage st) c leaf" and "stream_text cs \<noteq> []"
  shows "storage (snd (generateMessage st c leaf env)) = storage st"
    and "\<exists>e. fst (generateMessage st c leaf env) = Inl e"
proof -
  from generateMessage_delivered [OF assms(1-3), of leaf] obtain tm st4 where
    g: "generateMessage st c leaf env =
          persistPending st4 c leaf
            ((newPendingMsg (genNow env + 1) c leaf)
               \<lparr>content := acc_content None (stream_text cs), timings := tm\<rparr>) (genNow env + 1)"
    and s: "storage st4 = storage st"
    by blast
  let ?node = "assistantNode (genNow env + 1) c leaf (stream_text cs) tm"
  have "\<not> has_node (storage st) (convId ?node) leaf"
    using assms(4) by (simp add: assistantNode_fields)
  then obtain e where e: "appendMsg (storage st) ?node leaf = Inl e"
    using appendMsg_fails by blast
  show "storage (snd (generateMessage st c leaf env)) = storage st"
    using e assms(5)
    by (simp add: g persistPending_storage s acc_content_None asMessage_pending storage_after_append_def)
  show "\<exists>e. fst (generateMessage st c leaf env) = Inl e"
    using e assms(5)
    by (simp add: g persistPending_def s acc_content_None asMessage_pending)
qed

subsection \<open>A send that stores its user node\<close>

lemma resolveConversation_target:
  assumes r: "resolveConversation st convId_in leafNodeId content_in now = (c, l, st2)"
    and ts: "target_stored st convId_in leafNodeId"
  shows "c = target_conversation convId_in leafNodeId now"
    and "l = target_leaf convId_in leafNodeId now"
    and "getOneConversation (storage st2) c \<noteq> None"
    and "has_node (storage st2) c l"
    and "conversation_view st2 c = conversation_view st c @ root_view convId_in leafNodeId now"
    and "pendingMessages st2 = pendingMessages st"
    and "onChunkCalls st2 = onChunkCalls st"
    and "alerts st2 = alerts st"
proof -
  from resolveConversation_cases [of convId_in leafNodeId st content_in now]
  consider (given) c0 l0 where "convId_in = Some c0" "c0 \<noteq> []" "leafNodeId = Some l0"
      "resolveConversation st convId_in leafNodeId content_in now = (c0, l0, st)"
    | (fresh) "convId_in = None \<or> convId_in = Some [] \<or> leafNodeId = None"
      "resolveConversation st convId_in leafNodeId content_in now =
         startConversation st content_in now"
    by blast
  then have "c = target_conversation convId_in leafNodeId now \<and>
    l = target_leaf convId_in leafNodeId now \<and>
    getOneConversation (storage st2) c \<noteq> None \<and> has_node (storage st2) c l \<and>
    conversation_view st2 c = conversation_view st c @ root_view convId_in leafNodeId now \<and>
    pendingMessages st2 = pendingMessages st \<and> onChunkCalls st2 = onChunkCalls st \<and>
    alerts st2 = alerts st"
  proof cases
    case given
    with r have e: "c = c0" "l = l0" "st2 = st" by simp_all
    have n: "\<not> creates_conversation convId_in leafNodeId"
      using given by (simp add: creates_conversation_def)
    with ts given have "getOneConversation (storage st) c0 \<noteq> None" "has_node (storage st) c0 l0"
      by (simp_all add: target_stored_def)
    with e n given show ?thesis
      by (simp add: target_conversation_def target_leaf_def root_view_def)
  next
    case fresh
    then have y: "creates_conversation convId_in leafNodeId"
      by (simp add: creates_conversation_def)
    from fresh r have "startConversation st content_in now = (c, l, st2)" by simp
    from startConversation_effects [OF this] obtain conv where
      cc: "createConversation (storage st) (take 256 content_in) now = (conv, storage st2)"
      and e: "c = id_conv conv" "l = currNode conv" "alerts st2 = alerts st"
        "onChunkCalls st2 = onChunkCalls st" "pendingMessages st2 = pendingMessages st"
      by blast
    from createConversation_effects(1,2,5,6) [OF cc] createConversation_view [OF cc, of c] e y
    show ?thesis
      by (simp add: target_conversation_def target_leaf_def root_view_def conversation_view_def)
  qed
  then show "c = target_conversation convId_in leafNodeId now"
    and "l = target_leaf convId_in leafNodeId now"
    and "getOneConversation (storage st2) c \<noteq> None"
    and "has_node (storage st2) c l"
    and "conversation_view st2 c = conversation_view st c @ root_view convId_in leafNodeId now"
    and "pendingMessages st2 = pendingMessages st"
    and "onChunkCalls st2 = onChunkCalls st"
    and "alerts st2 = alerts st"
    by blast+
qed

text \<open>The state after the user node is appended and reported (line 346).\<close>

lemma user_node_stored:
  fixes now :: int and content1 :: string and extra_in :: "MessageExtra list option"
  assumes "getOneConversation (storage st2) c \<noteq> None" and "has_node (storage st2) c l"
  defines "st4 \<equiv> onChunk (appendMsg_unawaited st2 (userNode now c content1 extra_in l) l) (Some now)"
  shows "conversation_view st4 c = conversation_view st2 c @ [(now, User, content1, l)]"
    and "getOneConversation (storage st4) c \<noteq> None"
    and "has_node (storage st4) c now"
    and "pendingMessages st4 = pendingMessages st2"
    and "onChunkCalls st4 = onChunkCalls st2 @ [Some now]"
    and "alerts st4 = alerts st2"
proof -
  let ?user = "userNode now c content1 extra_in l"
  have cu: "convId ?user = c" "id_msg ?user = now"
    by (simp_all add: userNode_def)
  from assms(1,2) obtain s1 where ap: "appendMsg (storage st2) ?user l = Inr s1"
    using appendMsg_succeeds [of "storage st2" ?user l] by (auto simp: cu)
  have s4: "storage st4 = s1"
    by (simp add: st4_def onChunk_def appendMsg_unawaited_def ap)
  have "node_view (?user\<lparr>parent := l\<rparr>) = (now, User, content1, l)"
    by (simp add: node_view_def userNode_def)
  with appendMsg_view [OF ap, of c]
  show "conversation_view st4 c = conversation_view st2 c @ [(now, User, content1, l)]"
    by (simp add: conversation_view_def s4 cu)
  show "getOneConversation (storage st4) c \<noteq> None"
    unfolding s4 using ap assms(1) by (rule appendMsg_keeps_conversation)
  show "has_node (storage st4) c now"
    unfolding s4 using appendMsg_has_node [OF ap] by (simp add: cu)
  show "pendingMessages st4 = pendingMessages st2" "onChunkCalls st4 = onChunkCalls st2 @ [Some now]"
    "alerts st4 = alerts st2"
    by (simp_all add: st4_def onChunk_def appendMsg_unawaited_log)
qed

lemma snd_send_result:
  "snd (case r of (Inr (u :: unit), st5) \<Rightarrow> (True, st5) | (Inl (e :: exn), st5) \<Rightarrow> (False, st5)) =
     (snd r :: AppState)"
  by (cases r; cases "fst r") auto

lemma fst_send_result:
  "fst r = Inr () \<Longrightarrow>
     fst (case r of (Inr (u :: unit), st5) \<Rightarrow> (True, st5 :: AppState)
          | (Inl (e :: exn), st5) \<Rightarrow> (False, st5)) = True"
  by (cases r) auto

lemma sendMessage_proceeds:
  assumes "\<not> isGenerating st (case convId_in of None \<Rightarrow> [] | Some c \<Rightarrow> c)"
    and "trim content_in \<noteq> []"
  obtains content1 st1 c l st2 where
    "interceptCommand (rag env) st content_in = (content1, st1)"
    "storage st1 = storage st" "pendingMessages st1 = pendingMessages st"
    "onChunkCalls st1 = onChunkCalls st" "prefix (alerts st) (alerts st1)"
    "resolveConversation st1 convId_in leafNodeId content1 (convNow env) = (c, l, st2)"
    "sendMessage st convId_in leafNodeId content_in extra_in env =
       (case generateMessage
               (onChunk (appendMsg_unawaited st2 (userNode (userNow env) c content1 extra_in l) l)
                  (Some (userNow env))) c (userNow env) (gen env) of
          (Inr u, st5) \<Rightarrow> (True, st5)
        | (Inl e, st5) \<Rightarrow> (False, st5))"
proof -
  from interceptCommand_effects [of "rag env" st content_in] obtain content1 st1 where
    i: "interceptCommand (rag env) st content_in = (content1, st1)"
    and s1: "storage st1 = storage st" "pendingMessages st1 = pendingMessages st"
      "onChunkCalls st1 = onChunkCalls st" "prefix (alerts st) (alerts st1)"
    by blast
  obtain c l st2 where r: "resolveConversation st1 convId_in leafNodeId content1 (convNow env) = (c, l, st2)"
    by (cases "resolveConversation st1 convId_in leafNodeId content1 (convNow env)")
  have "sendMessage st convId_in leafNodeId content_in extra_in env =
      createAppendGenerate st1 convId_in leafNodeId content1 extra_in env"
    using assms by (simp add: sendMessage_def i)
  with createAppendGenerate_unfold [OF r, of extra_in] i s1 r that show thesis
    by simp
qed

lemma sendMessage_user_node:
  assumes "\<not> isGenerating st (case convId_in of None \<Rightarrow> [] | Some c \<Rightarrow> c)"
    and "trim content_in \<noteq> []"
    and "target_stored st convId_in leafNodeId"
  shows "prefix
           (conversation_view st (target_conversation convId_in leafNodeId (convNow env)) @
            root_view convId_in leafNodeId (convNow env) @
            [(userNow env, User, fst (interceptCommand (rag env) st content_in),
              target_leaf convId_in leafNodeId (convNow env))])
           (conversation_view (snd (sendMessage st convId_in leafNodeId content_in extra_in env))
              (target_conversation convId_in leafNodeId (convNow env)))"
proof -
  from assms(1,2) obtain content1 st1 c l st2 where
    i: "interceptCommand (rag env) st content_in = (content1, st1)"
    and s1: "storage st1 = storage st"
    and r: "resolveConversation st1 convId_in leafNodeId content1 (convNow env) = (c, l, st2)"
    and s: "sendMessage st convId_in leafNodeId content_in extra_in env =
       (case generateMessage
               (onChunk (appendMsg_unawaited st2 (userNode (userNow env) c content1 extra_in l) l)
                  (Some (userNow env))) c (userNow env) (gen env) of
          (Inr u, st5) \<Rightarrow> (True, st5)
        | (Inl e, st5) \<Rightarrow> (False, st5))"
    by (rule sendMessage_proceeds [where env = env and leafNodeId = leafNodeId and extra_in = extra_in])
  have ts: "target_stored st1 convId_in leafNodeId"
    using assms(3) by (simp add: target_stored_def s1)
  note t = resolveConversation_target [OF r ts]
  let ?st4 = "onChunk (appendMsg_unawaited st2 (userNode (userNow env) c content1 extra_in l) l)
                  (Some (userNow env))"
  note u = user_node_stored [OF t(3,4), where now = "userNow env" and ?content1.0 = content1
    and extra_in = extra_in]
  have v1: "conversation_view st1 c = conversation_view st c"
    by (simp add: conversation_view_def s1)
  from generateMessage_view_extends [of ?st4 c "userNow env" "gen env" c] obtain added where
    a: "conversation_view (snd (generateMessage ?st4 c (userNow env) (gen env))) c =
       conversation_view ?st4 c @ added" ..
  have sn: "snd (sendMessage st convId_in leafNodeId content_in extra_in env) =
      snd (generateMessage ?st4 c (userNow env) (gen env))"
    unfolding s by (rule snd_send_result)
  have "conversation_view (snd (sendMessage st convId_in leafNodeId content_in extra_in env)) c =
      (conversation_view st c @ root_view convId_in leafNodeId (convNow env) @
         [(userNow env, User, content1, l)]) @ added"
    unfolding sn a u(1) t(5) v1 by simp
  then have "prefix (conversation_view st c @ root_view convId_in leafNodeId (convNow env) @
         [(userNow env, User, content1, l)])
      (conversation_view (snd (sendMessage st convId_in leafNodeId content_in extra_in env)) c)"
    by (rule prefixI)
  moreover have "fst (interceptCommand (rag env) st content_in) = content1"
    by (simp add: i)
  ultimately show ?thesis
    unfolding t(1) [symmetric] t(2) [symmetric] by simp
qed

lemma sendMessage_run:
  assumes "\<not> isGenerating st (case convId_in of None \<Rightarrow> [] | Some c \<Rightarrow> c)"
    and "trim content_in \<noteq> []"
    and "target_stored st convId_in leafNodeId"
    and "\<not> isGenerating st (target_conversation convId_in leafNodeId (convNow env))"
    and "delivers (reply (gen env)) cs"
  shows "fst (sendMessage st convId_in leafNodeId content_in extra_in env) = True"
    and "conversation_view (snd (sendMessage st convId_in leafNodeId content_in extra_in env))
           (target_conversation convId_in leafNodeId (convNow env)) =
         conversation_view st (target_conversation convId_in leafNodeId (convNow env)) @
         root_view convId_in leafNodeId (convNow env) @
         [(userNow env, User, fst (interceptCommand (rag env) st content_in),
           target_leaf convId_in leafNodeId (convNow env))] @
         assistant_view (genNow (gen env)) (stream_text cs) (userNow env)"
    and "onChunkCalls (snd (sendMessage st convId_in leafNodeId content_in extra_in env)) =
         onChunkCalls st @ [Some (userNow env)] @ replicate (length cs) None @
         [Some (genNow (gen env) + 1)]"
    and "alerts (snd (sendMessage st convId_in leafNodeId content_in extra_in env)) =
         alerts (snd (interceptCommand (rag env) st content_in))"
    and "\<not> isGenerating (snd (sendMessage st convId_in leafNodeId content_in extra_in env))
           (target_conversation convId_in leafNodeId (convNow env))"
proof -
  from assms(1,2) obtain content1 st1 c l st2 where
    i: "interceptCommand (rag env) st content_in = (content1, st1)"
    and s1: "storage st1 = storage st" "pendingMessages st1 = pendingMessages st"
      "onChunkCalls st1 = onChunkCalls st"
    and r: "resolveConversation st1 convId_in leafNodeId content1 (convNow env) = (c, l, st2)"
    and s: "sendMessage st convId_in leafNodeId content_in extra_in env =
       (case generateMessage
               (onChunk (appendMsg_unawaited st2 (userNode (userNow env) c content1 extra_in l) l)
                  (Some (userNow env))) c (userNow env) (gen env) of
          (Inr u, st5) \<Rightarrow> (True, st5)
        | (Inl e, st5) \<Rightarrow> (False, st5))"
    by (rule sendMessage_proceeds [where env = env and leafNodeId = leafNodeId and extra_in = extra_in])
  have ts: "target_stored st1 convId_in leafNodeId"
    using assms(3) by (simp add: target_stored_def s1)
  note t = resolveConversation_target [OF r ts]
  let ?st4 = "onChunk (appendMsg_unawaited st2 (userNode (userNow env) c content1 extra_in l) l)
                  (Some (userNow env))"
  note u = user_node_stored [OF t(3,4), where now = "userNow env" and ?content1.0 = content1
    and extra_in = extra_in]
  have v1: "conversation_view st1 c = conversation_view st c"
    by (simp add: conversation_view_def s1)
  have "pendingMessages ?st4 = pendingMessages st"
    unfolding u(4) t(6) s1(2) ..
  then have ng: "\<not> isGenerating ?st4 c"
    using assms(4) unfolding t(1) isGenerating_def by simp
  have hn: "has_node (storage ?st4) c (userNow env) \<or> stream_text cs = []"
    using u(3) by simp
  note g = generateMessage_completes [OF ng u(2) assms(5) hn]
  have sn: "snd (sendMessage st convId_in leafNodeId content_in extra_in env) =
      snd (generateMessage ?st4 c (userNow env) (gen env))"
    unfolding s by (rule snd_send_result)
  have ic: "fst (interceptCommand (rag env) st content_in) = content1"
    "snd (interceptCommand (rag env) st content_in) = st1"
    by (simp_all add: i)
  show "fst (sendMessage st convId_in leafNodeId content_in extra_in env) = True"
    unfolding s using g(1) by (rule fst_send_result)
  show "conversation_view (snd (sendMessage st convId_in leafNodeId content_in extra_in env))
           (target_conversation convId_in leafNodeId (convNow env)) =
         conversation_view st (target_conversation convId_in leafNodeId (convNow env)) @
         root_view convId_in leafNodeId (convNow env) @
         [(userNow env, User, fst (interceptCommand (rag env) st content_in),
           target_leaf convId_in leafNodeId (convNow env))] @
         assistant_view (genNow (gen env)) (stream_text cs) (userNow env)"
    unfolding sn t(1) [symmetric] t(2) [symmetric] g(2) u(1) t(5) v1 ic by simp
  show "onChunkCalls (snd (sendMessage st convId_in leafNodeId content_in extra_in env)) =
         onChunkCalls st @ [Some (userNow env)] @ replicate (length cs) None @
         [Some (genNow (gen env) + 1)]"
    unfolding sn g(3) u(5) t(7) s1(3) by simp
  show "alerts (snd (sendMessage st convId_in leafNodeId content_in extra_in env)) =
         alerts (snd (interceptCommand (rag env) st content_in))"
    unfolding sn g(4) u(6) t(8) ic by simp
  show "\<not> isGenerating (snd (sendMessage st convId_in leafNodeId content_in extra_in env))
           (target_conversation convId_in leafNodeId (convNow env))"
    unfolding sn t(1) [symmetric] by (rule g(5))
qed


subsection \<open>Claims about cancelled generations and complete sends\<close>

lemma generateMessage_stopped_store:
  assumes "\<not> isGenerating st c" and "getOneConversation (storage st) c = Some conv"
    and "reply env = RequestStopped r \<and> cs = [] \<or>
         reply env = Response 200 body (map Yield cs @ UserStop # rest)"
    and "\<forall>ch \<in> set cs. well_formed ch"
  shows "\<not> isGenerating (snd (generateMessage st c leaf env)) c \<and>
     (\<forall>s. \<not> isGenerating (stopGenerating s c) c) \<and>
     (\<exists>tm. storage (snd (generateMessage st c leaf env)) =
        (if stream_text cs = [] then storage st
         else storage_after_append (storage st)
                (assistantNode (genNow env + 1) c leaf (stream_text cs) tm) leaf))"
proof -
  have "\<exists>tm st4. generateMessage st c leaf env =
           persistPending st4 c leaf
             ((newPendingMsg (genNow env + 1) c leaf)
                \<lparr>content := acc_content None (stream_text cs), timings := tm\<rparr>) (genNow env + 1) \<and>
         storage st4 = storage st \<and> pendingMessages st4 c = None"
  proof (cases "reply env = RequestStopped r \<and> cs = []")
    case True
    from generateMessage_stopped_request [OF assms(1,2), of env r leaf] True obtain st4 where
      "generateMessage st c leaf env =
         persistPending st4 c leaf (newPendingMsg (genNow env + 1) c leaf) (genNow env + 1)"
      "storage st4 = storage st" "pendingMessages st4 c = None"
      by blast
    moreover have "newPendingMsg (genNow env + 1) c leaf =
      (newPendingMsg (genNow env + 1) c leaf)\<lparr>content := acc_content None (stream_text cs), timings := None\<rparr>"
      using True by (simp add: newPendingMsg_def acc_content_def stream_text_def)
    ultimately show ?thesis by metis
  next
    case False
    with assms(3) have "reply env = Response 200 body (map Yield cs @ UserStop # rest)" by blast
    from generateMessage_stopped [OF assms(1,2) this assms(4), of leaf] show ?thesis by blast
  qed
  then obtain tm st4 where
    g: "generateMessage st c leaf env =
          persistPending st4 c leaf
            ((newPendingMsg (genNow env + 1) c leaf)
               \<lparr>content := acc_content None (stream_text cs), timings := tm\<rparr>) (genNow env + 1)"
    and s: "storage st4 = storage st" and p: "pendingMessages st4 c = None"
    by blast
  have "\<not> isGenerating (snd (generateMessage st c leaf env)) c"
    using persistPending_pending [OF p] by (simp add: g isGenerating_def)
  moreover have "\<forall>s. \<not> isGenerating (stopGenerating s c) c"
    using stopGenerating_effects by (simp add: isGenerating_def)
  moreover have "storage (snd (generateMessage st c leaf env)) =
        (if stream_text cs = [] then storage st
         else storage_after_append (storage st)
                (assistantNode (genNow env + 1) c leaf (stream_text cs) tm) leaf)"
    by (simp add: g persistPending_storage s acc_content_None asMessage_pending)
  ultimately show ?thesis by blast
qed


lemma stopped_delivers:
  assumes "reply env = RequestStopped r \<and> cs = [] \<or>
         reply env = Response 200 body (map Yield cs @ UserStop # rest)"
    and "\<forall>ch \<in> set cs. well_formed ch"
  shows "delivers (reply env) cs"
  using assms unfolding delivers_def list_all_iff by blast

text \<open>
  Claim C1, as the code has it. When the user stops a generation, the pending entry is
  gone at once and stays gone. The text received so far is not dropped: if no text had
  arrived, the store is unchanged; if text had arrived and the leaf is a node of the
  conversation, exactly one node is added, the assistant node holding the partial text as
  a child of the leaf; if text had arrived and the leaf is not stored, the append fails
  and the store is unchanged.
\<close>

theorem generateMessage_cancelled:
  assumes "\<not> isGenerating st c" and "getOneConversation (storage st) c = Some conv"
    and "reply env = RequestStopped r \<and> cs = [] \<or>
         reply env = Response 200 body (map Yield cs @ UserStop # rest)"
    and "\<forall>ch \<in> set cs. well_formed ch"
  shows "\<not> isGenerating (snd (generateMessage st c leaf env)) c \<and>
     (\<forall>s. \<not> isGenerating (stopGenerating s c) c) \<and>
     (\<exists>tm. storage (snd (generateMessage st c leaf env)) =
        (if stream_text cs = [] then storage st
         else storage_after_append (storage st)
                (assistantNode (genNow env + 1) c leaf (stream_text cs) tm) leaf) \<and>
        (stream_text cs \<noteq> [] \<and> has_node (storage st) c leaf \<longrightarrow>
           (\<exists>old. messages (storage (snd (generateMessage st c leaf env))) =
                    old @ [assistantNode (genNow env + 1) c leaf (stream_text cs) tm] \<and>
                  length old = length (messages (storage st))))) \<and>
     (stream_text cs = [] \<longrightarrow>
        fst (generateMessage st c leaf env) = Inr () \<and>
        storage (snd (generateMessage st c leaf env)) = storage st) \<and>
     (stream_text cs \<noteq> [] \<and> has_node (storage st) c leaf \<longrightarrow>
        fst (generateMessage st c leaf env) = Inr () \<and>
        conversation_view (snd (generateMessage st c leaf env)) c =
          conversation_view st c @ [(genNow env + 1, Assistant, stream_text cs, leaf)]) \<and>
     (stream_text cs \<noteq> [] \<and> \<not> has_node (storage st) c leaf \<longrightarrow>
        (\<exists>e. fst (generateMessage st c leaf env) = Inl e) \<and>
        storage (snd (generateMessage st c leaf env)) = storage st)"
proof -
  note d = stopped_delivers [OF assms(3,4)]
  have conv: "getOneConversation (storage st) c \<noteq> None"
    using assms(2) by simp
  from generateMessage_stopped_store [OF assms, of leaf] obtain tm where
    a: "\<not> isGenerating (snd (generateMessage st c leaf env)) c"
    and b: "\<forall>s. \<not> isGenerating (stopGenerating s c) c"
    and s: "storage (snd (generateMessage st c leaf env)) =
        (if stream_text cs = [] then storage st
         else storage_after_append (storage st)
                (assistantNode (genNow env + 1) c leaf (stream_text cs) tm) leaf)"
    by blast
  let ?node = "assistantNode (genNow env + 1) c leaf (stream_text cs) tm"
  have m: "stream_text cs \<noteq> [] \<and> has_node (storage st) c leaf \<longrightarrow>
      (\<exists>old. messages (storage (snd (generateMessage st c leaf env))) = old @ [?node] \<and>
             length old = length (messages (storage st)))"
  proof
    assume h: "stream_text cs \<noteq> [] \<and> has_node (storage st) c leaf"
    have "getOneConversation (storage st) (convId ?node) = Some conv"
      using assms(2) by (simp add: assistantNode_fields)
    moreover have "has_node (storage st) (convId ?node) leaf"
      using h by (simp add: assistantNode_fields)
    ultimately obtain s1 old where
      "appendMsg (storage st) ?node leaf = Inr s1" "messages s1 = old @ [?node\<lparr>parent := leaf\<rparr>]"
      "length old = length (messages (storage st))"
      using appendMsg_ok by blast
    moreover have "?node\<lparr>parent := leaf\<rparr> = ?node"
      by (simp add: assistantNode_def asMessage_def newPendingMsg_def)
    ultimately show "\<exists>old. messages (storage (snd (generateMessage st c leaf env))) = old @ [?node] \<and>
             length old = length (messages (storage st))"
      using s h by (simp add: storage_after_append_def)
  qed
  have e: "stream_text cs = [] \<longrightarrow>
        fst (generateMessage st c leaf env) = Inr () \<and>
        storage (snd (generateMessage st c leaf env)) = storage st"
  proof
    assume t: "stream_text cs = []"
    then have "has_node (storage st) c leaf \<or> stream_text cs = []" by simp
    from generateMessage_completes(1) [OF assms(1) conv d this] s t
    show "fst (generateMessage st c leaf env) = Inr () \<and>
        storage (snd (generateMessage st c leaf env)) = storage st"
      by simp
  qed
  have f: "stream_text cs \<noteq> [] \<and> has_node (storage st) c leaf \<longrightarrow>
        fst (generateMessage st c leaf env) = Inr () \<and>
        conversation_view (snd (generateMessage st c leaf env)) c =
          conversation_view st c @ [(genNow env + 1, Assistant, stream_text cs, leaf)]"
  proof
    assume h: "stream_text cs \<noteq> [] \<and> has_node (storage st) c leaf"
    then have "has_node (storage st) c leaf \<or> stream_text cs = []" by simp
    from generateMessage_completes(1,2) [OF assms(1) conv d this] h
    show "fst (generateMessage st c leaf env) = Inr () \<and>
        conversation_view (snd (generateMessage st c leaf env)) c =
          conversation_view st c @ [(genNow env + 1, Assistant, stream_text cs, leaf)]"
      by (simp add: assistant_view_def)
  qed
  have n: "stream_text cs \<noteq> [] \<and> \<not> has_node (storage st) c leaf \<longrightarrow>
        (\<exists>e. fst (generateMessage st c leaf env) = Inl e) \<and>
        storage (snd (generateMessage st c leaf env)) = storage st"
  proof
    assume h: "stream_text cs \<noteq> [] \<and> \<not> has_node (storage st) c leaf"
    then have h1: "\<not> has_node (storage st) c leaf" and h2: "stream_text cs \<noteq> []" by simp_all
    from generateMessage_not_stored [OF assms(1) conv d h1 h2]
    show "(\<exists>e. fst (generateMessage st c leaf env) = Inl e) \<and>
        storage (snd (generateMessage st c leaf env)) = storage st"
      by simp
  qed
  from a b s m e f n show ?thesis by blast
qed

theorem generateMessage_cancelled_counterexample:
  "map content (messages (storage ex_state)) = [[], ''hello''] \<and>
   map content (messages (storage (snd (generateMessage ex_state ''conv-1000'' 1001
      (ex_gen 1001 (Response 200 None stopped_stream)))))) = [[], ''hello'', ''Hel''] \<and>
   map role (messages (storage (snd (generateMessage ex_state ''conv-1000'' 1001
      (ex_gen 1001 (Response 200 None stopped_stream)))))) = [System, User, Assistant]"
  unfolding ex_state_eval by (simp add: gen_defs ex_defs)


theorem generateMessage_cancelled_witness:
  "\<not> isGenerating ex_state ''conv-1000'' \<and>
   getOneConversation (storage ex_state) ''conv-1000'' \<noteq> None \<and>
   stopped_stream = map Yield [text_chunk ''Hel''] @ UserStop # [Yield (text_chunk ''lo'')] \<and>
   well_formed (text_chunk ''Hel'') \<and>
   has_node (storage ex_state) ''conv-1000'' 1001 \<and>
   conversation_view ex_state ''conv-1000'' =
     [(1000, System, [], - 1), (1001, User, ''hello'', 1000)] \<and>
   \<not> isGenerating (snd (generateMessage ex_state ''conv-1000'' 1001
      (ex_gen 1001 (Response 200 None stopped_stream)))) ''conv-1000'' \<and>
   fst (generateMessage ex_state ''conv-1000'' 1001
      (ex_gen 1001 (Response 200 None stopped_stream))) = Inr () \<and>
   conversation_view (snd (generateMessage ex_state ''conv-1000'' 1001
      (ex_gen 1001 (Response 200 None stopped_stream)))) ''conv-1000'' =
     [(1000, System, [], - 1), (1001, User, ''hello'', 1000), (1002, Assistant, ''Hel'', 1001)]"
proof -
  let ?env = "ex_gen 1001 (Response 200 None stopped_stream)"
  let ?cs = "[text_chunk ''Hel'']"
  have h1: "\<not> isGenerating ex_state ''conv-1000''"
    and h2: "getOneConversation (storage ex_state) ''conv-1000'' =
      Some \<lparr>id_conv = ''conv-1000'', lastModified = 1001, currNode = 1001, name = ''hello''\<rparr>"
    using ex_state_conv by simp_all
  have h3: "reply ?env = RequestStopped (RequestThrows AbortError) \<and> ?cs = [] \<or>
            reply ?env = Response 200 None (map Yield ?cs @ UserStop # [Yield (text_chunk ''lo'')])"
    by (simp add: ex_gen_def stopped_stream_def)
  have h4: "\<forall>ch \<in> set ?cs. well_formed ch"
    by (simp add: well_formed_def text_chunk_def)
  have t: "stream_text ?cs = ''Hel''"
    by (simp add: stream_text_def delta_content_def text_chunk_def)
  have n: "has_node (storage ex_state) ''conv-1000'' 1001"
    unfolding ex_state_eval by (simp add: has_node_def)
  have v: "conversation_view ex_state ''conv-1000'' =
     [(1000, System, [], - 1), (1001, User, ''hello'', 1000)]"
    unfolding ex_state_eval by (simp add: conversation_view_def getMessages_def node_view_def)
  have g: "genNow ?env + 1 = 1002"
    by (simp add: ex_gen_def)
  note th = generateMessage_cancelled [OF h1 h2 h3 h4, of 1001]
  from th have a: "\<not> isGenerating (snd (generateMessage ex_state ''conv-1000'' 1001 ?env)) ''conv-1000''"
    by (rule conjunct1)
  from th t n have "fst (generateMessage ex_state ''conv-1000'' 1001 ?env) = Inr () \<and>
        conversation_view (snd (generateMessage ex_state ''conv-1000'' 1001 ?env)) ''conv-1000'' =
          conversation_view ex_state ''conv-1000'' @ [(genNow ?env + 1, Assistant, ''Hel'', 1001)]"
    by simp
  with a h1 h2 h4 n v g show ?thesis
    by (simp add: stopped_stream_def)
qed

lemma ex_state_view:
  "conversation_view ex_state ''conv-1000'' =
     [(1000, System, [], - 1), (1001, User, ''hello'', 1000)]"
  unfolding ex_state_eval by (simp add: conversation_view_def getMessages_def node_view_def)

lemma ex_state_target:
  "target_stored ex_state (Some ''conv-1000'') (Some 1001)"
  "target_conversation (Some ''conv-1000'') (Some 1001) t0 = ''conv-1000''"
  "target_leaf (Some ''conv-1000'') (Some 1001) t0 = 1001"
  "root_view (Some ''conv-1000'') (Some 1001) t0 = []"
  unfolding ex_state_eval
  by (simp_all add: target_stored_def target_conversation_def target_leaf_def root_view_def
        creates_conversation_def has_node_def getOneConversation_def)

lemma hello_delivers:
  "delivers (Response 200 None hello_stream) [text_chunk ''Hel'', text_chunk ''lo'']"
  "stream_text [text_chunk ''Hel'', text_chunk ''lo''] = ''Hello''"
  by (simp_all add: delivers_def hello_stream_def well_formed_def text_chunk_def stream_text_def
        delta_content_def)

lemma stopped_stream_delivers:
  "delivers (Response 200 None stopped_stream) [text_chunk ''Hel'']"
  "stream_text [text_chunk ''Hel''] = ''Hel''"
  by (simp_all add: delivers_def stopped_stream_def well_formed_def text_chunk_def stream_text_def
        delta_content_def)

text \<open>
  Claim C5. When a generation is pending for the target conversation (the given id, or
  the empty id when none is given) or the content is empty after trimming, the result is
  \<^verbatim>\<open>false\<close> and the state is untouched: no conversation is created and no node is
  appended. Otherwise the send goes on. The callback is invoked with the id of the new
  user message. When the send can store its user node (a conversation is created, or the
  leaf is a node of the given conversation), the conversation holds, after what it held
  before, the root of a new conversation and the user node with the content as rewritten,
  whatever the server replies. When moreover the reply delivers its chunks, the result is
  \<^verbatim>\<open>true\<close>, the assistant node with the text of the chunks follows as the child of
  the user node, and the callback has been invoked once for the user node, once per chunk
  and once for the assistant node.
\<close>

theorem sendMessage_rejects:
  "(isGenerating st (case convId_in of None \<Rightarrow> [] | Some c \<Rightarrow> c) \<or> trim content_in = [] \<longrightarrow>
      sendMessage st convId_in leafNodeId content_in extra_in env = (False, st)) \<and>
   (\<not> (isGenerating st (case convId_in of None \<Rightarrow> [] | Some c \<Rightarrow> c) \<or> trim content_in = []) \<longrightarrow>
      prefix (onChunkCalls st @ [Some (userNow env)])
        (onChunkCalls (snd (sendMessage st convId_in leafNodeId content_in extra_in env)))) \<and>
   (\<not> (isGenerating st (case convId_in of None \<Rightarrow> [] | Some c \<Rightarrow> c) \<or> trim content_in = []) \<and>
    target_stored st convId_in leafNodeId \<longrightarrow>
      prefix
        (conversation_view st (target_conversation convId_in leafNodeId (convNow env)) @
         root_view convId_in leafNodeId (convNow env) @
         [(userNow env, User, fst (interceptCommand (rag env) st content_in),
           target_leaf convId_in leafNodeId (convNow env))])
        (conversation_view (snd (sendMessage st convId_in leafNodeId content_in extra_in env))
           (target_conversation convId_in leafNodeId (convNow env)))) \<and>
   (\<not> (isGenerating st (case convId_in of None \<Rightarrow> [] | Some c \<Rightarrow> c) \<or> trim content_in = []) \<and>
    target_stored st convId_in leafNodeId \<and>
    \<not> isGenerating st (target_conversation convId_in leafNodeId (convNow env)) \<and>
    delivers (reply (gen env)) cs \<longrightarrow>
      fst (sendMessage st convId_in leafNodeId content_in extra_in env) = True \<and>
      conversation_view (snd (sendMessage st convId_in leafNodeId content_in extra_in env))
        (target_conversation convId_in leafNodeId (convNow env)) =
        conversation_view st (target_conversation convId_in leafNodeId (convNow env)) @
        root_view convId_in leafNodeId (convNow env) @
        [(userNow env, User, fst (interceptCommand (rag env) st content_in),
          target_leaf convId_in leafNodeId (convNow env))] @
        assistant_view (genNow (gen env)) (stream_text cs) (userNow env) \<and>
      onChunkCalls (snd (sendMessage st convId_in leafNodeId content_in extra_in env)) =
        onChunkCalls st @ [Some (userNow env)] @ replicate (length cs) None @
        [Some (genNow (gen env) + 1)])"
proof (intro conjI impI)
  assume "isGenerating st (case convId_in of None \<Rightarrow> [] | Some c \<Rightarrow> c) \<or> trim content_in = []"
  then show "sendMessage st convId_in leafNodeId content_in extra_in env = (False, st)"
    by (auto simp: sendMessage_def)
next
  assume n: "\<not> (isGenerating st (case convId_in of None \<Rightarrow> [] | Some c \<Rightarrow> c) \<or> trim content_in = [])"
  from interceptCommand_effects [of "rag env" st content_in] obtain content1 st1 where
    i: "interceptCommand (rag env) st content_in = (content1, st1)"
    and o: "onChunkCalls st1 = onChunkCalls st"
    by blast
  from n i have "sendMessage st convId_in leafNodeId content_in extra_in env =
      createAppendGenerate st1 convId_in leafNodeId content1 extra_in env"
    by (simp add: sendMessage_def)
  with createAppendGenerate_log [of st1 env convId_in leafNodeId content1 extra_in] o
  show "prefix (onChunkCalls st @ [Some (userNow env)])
        (onChunkCalls (snd (sendMessage st convId_in leafNodeId content_in extra_in env)))"
    by simp
next
  assume "\<not> (isGenerating st (case convId_in of None \<Rightarrow> [] | Some c \<Rightarrow> c) \<or> trim content_in = []) \<and>
    target_stored st convId_in leafNodeId"
  then have g: "\<not> isGenerating st (case convId_in of None \<Rightarrow> [] | Some c \<Rightarrow> c)"
    and t: "trim content_in \<noteq> []" and ts: "target_stored st convId_in leafNodeId"
    by simp_all
  from g t ts show "prefix
        (conversation_view st (target_conversation convId_in leafNodeId (convNow env)) @
         root_view convId_in leafNodeId (convNow env) @
         [(userNow env, User, fst (interceptCommand (rag env) st content_in),
           target_leaf convId_in leafNodeId (convNow env))])
        (conversation_view (snd (sendMessage st convId_in leafNodeId content_in extra_in env))
           (target_conversation convId_in leafNodeId (convNow env)))"
    by (rule sendMessage_user_node)
next
  assume a: "\<not> (isGenerating st (case convId_in of None \<Rightarrow> [] | Some c \<Rightarrow> c) \<or> trim content_in = []) \<and>
    target_stored st convId_in leafNodeId \<and>
    \<not> isGenerating st (target_conversation convId_in leafNodeId (convNow env)) \<and>
    delivers (reply (gen env)) cs"
  then have g: "\<not> isGenerating st (case convId_in of None \<Rightarrow> [] | Some c \<Rightarrow> c)"
    and t: "trim content_in \<noteq> []" and ts: "target_stored st convId_in leafNodeId"
    and tg: "\<not> isGenerating st (target_conversation convId_in leafNodeId (convNow env))"
    and d: "delivers (reply (gen env)) cs"
    by simp_all
  note run = sendMessage_run [OF g t ts tg d, of extra_in]
  show "fst (sendMessage st convId_in leafNodeId content_in extra_in env) = True"
    by (rule run(1))
  show "conversation_view (snd (sendMessage st convId_in leafNodeId content_in extra_in env))
        (target_conversation convId_in leafNodeId (convNow env)) =
        conversation_view st (target_conversation convId_in leafNodeId (convNow env)) @
        root_view convId_in leafNodeId (convNow env) @
        [(userNow env, User, fst (interceptCommand (rag env) st content_in),
          target_leaf convId_in leafNodeId (convNow env))] @
        assistant_view (genNow (gen env)) (stream_text cs) (userNow env)"
    by (rule run(2))
  show "onChunkCalls (snd (sendMessage st convId_in leafNodeId content_in extra_in env)) =
        onChunkCalls st @ [Some (userNow env)] @ replicate (length cs) None @
        [Some (genNow (gen env) + 1)]"
    by (rule run(3))
qed

theorem sendMessage_rejects_witness:
  "trim ''  '' = [] \<and>
   sendMessage ex_state (Some ''conv-1000'') (Some 1001) ''  '' None
     (ex_send RagFails 1000 2000 2000 (Response 200 None hello_stream)) = (False, ex_state) \<and>
   isGenerating (setPending ex_state ''conv-1000'' (Some (newPendingMsg 1002 ''conv-1000'' 1001)))
     ''conv-1000'' \<and>
   sendMessage (setPending ex_state ''conv-1000'' (Some (newPendingMsg 1002 ''conv-1000'' 1001)))
     (Some ''conv-1000'') (Some 1001) ''hi'' None
     (ex_send RagFails 1000 2000 2000 (Response 200 None hello_stream)) =
     (False, setPending ex_state ''conv-1000'' (Some (newPendingMsg 1002 ''conv-1000'' 1001))) \<and>
   \<not> isGenerating ex_state ''conv-1000'' \<and> trim ''hi'' \<noteq> [] \<and>
   target_stored ex_state (Some ''conv-1000'') (Some 1001) \<and>
   delivers (Response 200 None hello_stream) [text_chunk ''Hel'', text_chunk ''lo''] \<and>
   fst (sendMessage ex_state (Some ''conv-1000'') (Some 1001) ''hi'' None
        (ex_send RagFails 1000 2000 2000 (Response 200 None hello_stream))) = True \<and>
   conversation_view (snd (sendMessage ex_state (Some ''conv-1000'') (Some 1001) ''hi'' None
        (ex_send RagFails 1000 2000 2000 (Response 200 None hello_stream)))) ''conv-1000'' =
     [(1000, System, [], - 1), (1001, User, ''hello'', 1000), (2000, User, ''hi'', 1001),
      (2001, Assistant, ''Hello'', 2000)] \<and>
   onChunkCalls (snd (sendMessage ex_state (Some ''conv-1000'') (Some 1001) ''hi'' None
        (ex_send RagFails 1000 2000 2000 (Response 200 None hello_stream)))) =
     [Some 2000, None, None, Some 2001]"
proof -
  let ?env = "ex_send RagFails 1000 2000 2000 (Response 200 None hello_stream)"
  let ?busy = "setPending ex_state ''conv-1000'' (Some (newPendingMsg 1002 ''conv-1000'' 1001))"
  let ?cs = "[text_chunk ''Hel'', text_chunk ''lo'']"
  have b: "trim ''  '' = []"
    by (simp add: trim_def is_space_def)
  have g: "isGenerating ?busy ''conv-1000''"
    by (simp add: isGenerating_def setPending_def)
  have n: "\<not> isGenerating ex_state ''conv-1000''" "trim ''hi'' \<noteq> []"
    using ex_state_conv by (simp_all add: trim_def is_space_def)
  have e: "onChunkCalls ex_state = []" "userNow ?env = 2000" "convNow ?env = 1000"
    "genNow (gen ?env) = 2000" "reply (gen ?env) = Response 200 None hello_stream"
    "fst (interceptCommand (rag ?env) ex_state ''hi'') = ''hi''"
    unfolding ex_state_eval by (simp_all add: ex_send_def ex_gen_def interceptCommand_def)
  from sendMessage_rejects [of ex_state "Some ''conv-1000''" "''  ''" "Some 1001" None ?env ?cs] b
  have 1: "sendMessage ex_state (Some ''conv-1000'') (Some 1001) ''  '' None ?env = (False, ex_state)"
    by simp
  from sendMessage_rejects [of ?busy "Some ''conv-1000''" "''hi''" "Some 1001" None ?env ?cs] g
  have 2: "sendMessage ?busy (Some ''conv-1000'') (Some 1001) ''hi'' None ?env = (False, ?busy)"
    by simp
  from sendMessage_rejects [of ex_state "Some ''conv-1000''" "''hi''" "Some 1001" None ?env ?cs]
  have "\<not> (isGenerating ex_state (case Some ''conv-1000'' of None \<Rightarrow> [] | Some c \<Rightarrow> c) \<or> trim ''hi'' = []) \<and>
    target_stored ex_state (Some ''conv-1000'') (Some 1001) \<and>
    \<not> isGenerating ex_state (target_conversation (Some ''conv-1000'') (Some 1001) (convNow ?env)) \<and>
    delivers (reply (gen ?env)) ?cs \<longrightarrow>
      fst (sendMessage ex_state (Some ''conv-1000'') (Some 1001) ''hi'' None ?env) = True \<and>
      conversation_view (snd (sendMessage ex_state (Some ''conv-1000'') (Some 1001) ''hi'' None ?env))
        (target_conversation (Some ''conv-1000'') (Some 1001) (convNow ?env)) =
        conversation_view ex_state (target_conversation (Some ''conv-1000'') (Some 1001) (convNow ?env)) @
        root_view (Some ''conv-1000'') (Some 1001) (convNow ?env) @
        [(userNow ?env, User, fst (interceptCommand (rag ?env) ex_state ''hi''),
          target_leaf (Some ''conv-1000'') (Some 1001) (convNow ?env))] @
        assistant_view (genNow (gen ?env)) (stream_text ?cs) (userNow ?env) \<and>
      onChunkCalls (snd (sendMessage ex_state (Some ''conv-1000'') (Some 1001) ''hi'' None ?env)) =
        onChunkCalls ex_state @ [Some (userNow ?env)] @ replicate (length ?cs) None @
        [Some (genNow (gen ?env) + 1)]"
    by (elim conjE)
  then have 3: "fst (sendMessage ex_state (Some ''conv-1000'') (Some 1001) ''hi'' None ?env) = True \<and>
      conversation_view (snd (sendMessage ex_state (Some ''conv-1000'') (Some 1001) ''hi'' None ?env))
        ''conv-1000'' =
        [(1000, System, [], - 1), (1001, User, ''hello'', 1000), (2000, User, ''hi'', 1001),
         (2001, Assistant, ''Hello'', 2000)] \<and>
      onChunkCalls (snd (sendMessage ex_state (Some ''conv-1000'') (Some 1001) ''hi'' None ?env)) =
        [Some 2000, None, None, Some 2001]"
    using n ex_state_target hello_delivers
    unfolding e ex_state_target ex_state_view hello_delivers(2)
    by (simp add: assistant_view_def)
  from b g n 1 2 3 ex_state_target(1) hello_delivers(1) show ?thesis by simp
qed


text \<open>
  Claim C8. A send whose generation is ended by the user's stop returns \<^verbatim>\<open>true\<close>: the
  \<^verbatim>\<open>AbortError\<close> is caught in generateMessage and not rethrown. The send is one that
  the chat screen can make: it creates a conversation, or its leaf is a node of the given
  conversation (or no text had arrived before the stop, so that nothing is left to store).
  When the user node can be stored, no alert is raised by the generation and the
  conversation gains the user node and, when text had arrived, the assistant node with
  the partial text.
\<close>

theorem sendMessage_cancelled_returns_true:
  assumes "\<not> isGenerating st (case convId_in of None \<Rightarrow> [] | Some c \<Rightarrow> c)"
    and "trim content_in \<noteq> []"
    and "reply (gen env) = RequestStopped r \<and> cs = [] \<or>
         reply (gen env) = Response 200 body (map Yield cs @ UserStop # rest)"
    and "\<forall>ch \<in> set cs. well_formed ch"
    and "convId_in = None \<or> convId_in = Some [] \<or> leafNodeId = None \<or>
         (\<exists>c l. convId_in = Some c \<and> leafNodeId = Some l \<and>
                getOneConversation (storage st) c \<noteq> None \<and>
                (has_node (storage st) c l \<or> stream_text cs = []))"
  shows "fst (sendMessage st convId_in leafNodeId content_in extra_in env) = True \<and>
    (target_stored st convId_in leafNodeId \<and>
     \<not> isGenerating st (target_conversation convId_in leafNodeId (convNow env)) \<longrightarrow>
       alerts (snd (sendMessage st convId_in leafNodeId content_in extra_in env)) =
         alerts (snd (interceptCommand (rag env) st content_in)) \<and>
       conversation_view (snd (sendMessage st convId_in leafNodeId content_in extra_in env))
         (target_conversation convId_in leafNodeId (convNow env)) =
         conversation_view st (target_conversation convId_in leafNodeId (convNow env)) @
         root_view convId_in leafNodeId (convNow env) @
         [(userNow env, User, fst (interceptCommand (rag env) st content_in),
           target_leaf convId_in leafNodeId (convNow env))] @
         assistant_view (genNow (gen env)) (stream_text cs) (userNow env))"
proof (intro conjI impI)
  from interceptCommand_effects [of "rag env" st content_in] obtain content1 st1 where
    i: "interceptCommand (rag env) st content_in = (content1, st1)"
    and s1: "storage st1 = storage st"
    by blast
  have s: "sendMessage st convId_in leafNodeId content_in extra_in env =
      createAppendGenerate st1 convId_in leafNodeId content1 extra_in env"
    using assms(1,2) by (simp add: sendMessage_def i)
  obtain c l st2 where r: "resolveConversation st1 convId_in leafNodeId content1 (convNow env) = (c, l, st2)"
    by (cases "resolveConversation st1 convId_in leafNodeId content1 (convNow env)")
  from resolveConversation_cases [of convId_in leafNodeId st1 content1 "convNow env"]
  consider (given) c' l' where "convId_in = Some c'" "c' \<noteq> []" "leafNodeId = Some l'"
      "resolveConversation st1 convId_in leafNodeId content1 (convNow env) = (c', l', st1)"
    | (fresh) "resolveConversation st1 convId_in leafNodeId content1 (convNow env) =
      startConversation st1 content1 (convNow env)"
    by blast
  then have a: "getOneConversation (storage st2) c \<noteq> None \<and>
           (has_node (storage st2) c l \<or> stream_text cs = [])"
  proof cases
    case given
    with r have "c = c'" "l = l'" "st2 = st1" by simp_all
    with given assms(5) s1 show ?thesis by auto
  next
    case fresh
    with r have "startConversation st1 content1 (convNow env) = (c, l, st2)" by simp
    from startConversation_effects [OF this] obtain conv where
      cc: "createConversation (storage st1) (take 256 content1) (convNow env) = (conv, storage st2)"
      and e: "c = id_conv conv" "l = currNode conv"
      by blast
    from createConversation_effects(2,5,6) [OF cc] e show ?thesis by simp
  qed
  let ?user = "userNode (userNow env) c content1 extra_in l"
  let ?st3 = "appendMsg_unawaited st2 ?user l"
  let ?st4 = "onChunk ?st3 (Some (userNow env))"
  have s4: "storage ?st4 = storage_after_append (storage st2) ?user l"
    by (simp add: onChunk_def appendMsg_unawaited_log)
  have c4: "getOneConversation (storage ?st4) c \<noteq> None"
    unfolding s4 using a by (simp add: storage_after_append_keeps_conversation)
  have n4: "has_node (storage ?st4) c (userNow env) \<or> stream_text cs = []"
  proof (cases "stream_text cs = []")
    case True
    then show ?thesis by simp
  next
    case False
    with a have "getOneConversation (storage st2) (convId ?user) \<noteq> None"
      "has_node (storage st2) (convId ?user) l"
      by (simp_all add: userNode_def)
    then obtain s2 where ap: "appendMsg (storage st2) ?user l = Inr s2"
      using appendMsg_succeeds by blast
    from appendMsg_has_node [OF ap] have "has_node s2 c (userNow env)"
      by (simp add: userNode_def)
    with ap show ?thesis
      unfolding s4 by (simp add: storage_after_append_def)
  qed
  have "fst (generateMessage ?st4 c (userNow env) (gen env)) = Inr ()"
    using c4 assms(3,4) n4 by (rule generateMessage_cancelled_ok)
  then show "fst (sendMessage st convId_in leafNodeId content_in extra_in env) = True"
    unfolding s createAppendGenerate_unfold [OF r]
    by (cases "generateMessage ?st4 c (userNow env) (gen env)") auto
next
  assume "target_stored st convId_in leafNodeId \<and>
     \<not> isGenerating st (target_conversation convId_in leafNodeId (convNow env))"
  then have ts: "target_stored st convId_in leafNodeId"
    and tg: "\<not> isGenerating st (target_conversation convId_in leafNodeId (convNow env))"
    by simp_all
  from assms(3,4) have d: "delivers (reply (gen env)) cs"
    by (rule stopped_delivers)
  note run = sendMessage_run [OF assms(1) assms(2) ts tg d, of extra_in]
  show "alerts (snd (sendMessage st convId_in leafNodeId content_in extra_in env)) =
         alerts (snd (interceptCommand (rag env) st content_in))"
    by (rule run(4))
  show "conversation_view (snd (sendMessage st convId_in leafNodeId content_in extra_in env))
         (target_conversation convId_in leafNodeId (convNow env)) =
         conversation_view st (target_conversation convId_in leafNodeId (convNow env)) @
         root_view convId_in leafNodeId (convNow env) @
         [(userNow env, User, fst (interceptCommand (rag env) st content_in),
           target_leaf convId_in leafNodeId (convNow env))] @
         assistant_view (genNow (gen env)) (stream_text cs) (userNow env)"
    by (rule run(2))
qed

theorem sendMessage_cancelled_returns_true_witness:
  "\<not> isGenerating ex_state ''conv-1000'' \<and> trim ''hi'' \<noteq> [] \<and>
   stopped_stream = map Yield [text_chunk ''Hel''] @ UserStop # [Yield (text_chunk ''lo'')] \<and>
   well_formed (text_chunk ''Hel'') \<and>
   getOneConversation (storage ex_state) ''conv-1000'' \<noteq> None \<and>
   has_node (storage ex_state) ''conv-1000'' 1001 \<and>
   target_stored ex_state (Some ''conv-1000'') (Some 1001) \<and>
   fst (sendMessage ex_state (Some ''conv-1000'') (Some 1001) ''hi'' None
          (ex_send RagFails 1000 2000 2000 (Response 200 None stopped_stream))) = True \<and>
   alerts (snd (sendMessage ex_state (Some ''conv-1000'') (Some 1001) ''hi'' None
          (ex_send RagFails 1000 2000 2000 (Response 200 None stopped_stream)))) = [] \<and>
   conversation_view (snd (sendMessage ex_state (Some ''conv-1000'') (Some 1001) ''hi'' None
          (ex_send RagFails 1000 2000 2000 (Response 200 None stopped_stream)))) ''conv-1000'' =
     [(1000, System, [], - 1), (1001, User, ''hello'', 1000), (2000, User, ''hi'', 1001),
      (2001, Assistant, ''Hel'', 2000)]"
proof -
  let ?env = "ex_send RagFails 1000 2000 2000 (Response 200 None stopped_stream)"
  let ?cs = "[text_chunk ''Hel'']"
  have h1: "\<not> isGenerating ex_state (case Some ''conv-1000'' of None \<Rightarrow> [] | Some c \<Rightarrow> c)"
    using ex_state_conv by simp
  have h2: "trim ''hi'' \<noteq> []"
    by (simp add: trim_def is_space_def)
  have h3: "reply (gen ?env) = RequestStopped (RequestThrows AbortError) \<and> ?cs = [] \<or>
            reply (gen ?env) = Response 200 None (map Yield ?cs @ UserStop # [Yield (text_chunk ''lo'')])"
    by (simp add: ex_send_def ex_gen_def stopped_stream_def)
  have h4: "\<forall>ch \<in> set ?cs. well_formed ch"
    by (simp add: well_formed_def text_chunk_def)
  have c: "getOneConversation (storage ex_state) ''conv-1000'' \<noteq> None"
    using ex_state_conv by simp
  have n: "has_node (storage ex_state) ''conv-1000'' 1001"
    unfolding ex_state_eval by (simp add: has_node_def)
  have h5: "Some ''conv-1000'' = None \<or> Some ''conv-1000'' = Some [] \<or> Some (1001::int) = None \<or>
         (\<exists>c l. Some ''conv-1000'' = Some c \<and> Some (1001::int) = Some l \<and>
                getOneConversation (storage ex_state) c \<noteq> None \<and>
                (has_node (storage ex_state) c l \<or> stream_text ?cs = []))"
    using c n by simp
  have al: "alerts ex_state = []"
    unfolding ex_state_eval by simp
  have e: "userNow ?env = 2000" "convNow ?env = 1000" "genNow (gen ?env) = 2000"
    "interceptCommand (rag ?env) ex_state ''hi'' = (''hi'', ex_state)"
    by (simp_all add: ex_send_def ex_gen_def interceptCommand_def)
  note t = sendMessage_cancelled_returns_true [OF h1 h2 h3 h4 h5, of None]
  from t have 1: "fst (sendMessage ex_state (Some ''conv-1000'') (Some 1001) ''hi'' None ?env) = True"
    by (rule conjunct1)
  from t have "target_stored ex_state (Some ''conv-1000'') (Some 1001) \<and>
     \<not> isGenerating ex_state (target_conversation (Some ''conv-1000'') (Some 1001) (convNow ?env)) \<longrightarrow>
       alerts (snd (sendMessage ex_state (Some ''conv-1000'') (Some 1001) ''hi'' None ?env)) =
         alerts (snd (interceptCommand (rag ?env) ex_state ''hi'')) \<and>
       conversation_view (snd (sendMessage ex_state (Some ''conv-1000'') (Some 1001) ''hi'' None ?env))
         (target_conversation (Some ''conv-1000'') (Some 1001) (convNow ?env)) =
         conversation_view ex_state (target_conversation (Some ''conv-1000'') (Some 1001) (convNow ?env)) @
         root_view (Some ''conv-1000'') (Some 1001) (convNow ?env) @
         [(userNow ?env, User, fst (interceptCommand (rag ?env) ex_state ''hi''),
           target_leaf (Some ''conv-1000'') (Some 1001) (convNow ?env))] @
         assistant_view (genNow (gen ?env)) (stream_text ?cs) (userNow ?env)"
    by (rule conjunct2)
  then have 2: "alerts (snd (sendMessage ex_state (Some ''conv-1000'') (Some 1001) ''hi'' None ?env)) = [] \<and>
       conversation_view (snd (sendMessage ex_state (Some ''conv-1000'') (Some 1001) ''hi'' None ?env))
         ''conv-1000'' =
         [(1000, System, [], - 1), (1001, User, ''hello'', 1000), (2000, User, ''hi'', 1001),
          (2001, Assistant, ''Hel'', 2000)]"
    using h1 ex_state_target(1)
    unfolding e ex_state_target ex_state_view stopped_stream_delivers(2)
    by (simp add: assistant_view_def al)
  from h1 h2 h4 c n 1 2 ex_state_target(1) show ?thesis
    by (simp add: stopped_stream_def)
qed






end
